theory Spec2Isabelle
  imports Main "HOL-Library.Word" "HOL-Library.AList"
begin

section \<open>Strings of the host language\<close>

text \<open>
  A string of the extension is a sequence of UTF-16 code units. The reference file uses
  characters outside ASCII (the em dash and the en dash of the description pattern), so a
  code unit is a 16-bit word and not a byte. \<open>js\<close> embeds an ASCII literal.
\<close>

type_synonym jschar = "16 word"
type_synonym jsstring = "jschar list"

definition js :: "string \<Rightarrow> jsstring" where
  "js s = map of_char s"

text \<open>The character classes of the regular expressions: \<open>\s\<close>, \<open>\w\<close> and \<open>.\<close>
  (no flag is set on any expression of the source). \<open>trim\<close> strips exactly the
  characters of \<open>\s\<close>: white space and line terminators.\<close>

definition is_line_terminator :: "jschar \<Rightarrow> bool" where
  "is_line_terminator c = (c = 0x0A \<or> c = 0x0D \<or> c = 0x2028 \<or> c = 0x2029)"

definition is_space :: "jschar \<Rightarrow> bool" where
  "is_space c = (c = 0x09 \<or> c = 0x0B \<or> c = 0x0C \<or> c = 0x20 \<or> c = 0xA0 \<or> c = 0x1680
     \<or> (0x2000 \<le> c \<and> c \<le> 0x200A) \<or> c = 0x202F \<or> c = 0x205F \<or> c = 0x3000 \<or> c = 0xFEFF
     \<or> is_line_terminator c)"

definition is_word :: "jschar \<Rightarrow> bool" where
  "is_word c = ((0x30 \<le> c \<and> c \<le> 0x39) \<or> (0x41 \<le> c \<and> c \<le> 0x5A) \<or> c = 0x5F
     \<or> (0x61 \<le> c \<and> c \<le> 0x7A))"

definition is_dot :: "jschar \<Rightarrow> bool" where
  "is_dot c = (\<not> is_line_terminator c)"

text \<open>The class \<open>[\<emdash>\<endash>-]\<close> of the description pattern: U+2014, U+2013 and the hyphen.\<close>

definition is_dash :: "jschar \<Rightarrow> bool" where
  "is_dash c = (c = 0x2014 \<or> c = 0x2013 \<or> c = 0x2D)"

definition is_char :: "char \<Rightarrow> jschar \<Rightarrow> bool" where
  "is_char a c = (c = of_char a)"

definition not_rparen :: "jschar \<Rightarrow> bool" where
  "not_rparen c = (\<not> is_char CHR '')'' c)"

definition trimStart :: "jsstring \<Rightarrow> jsstring" where
  "trimStart s = dropWhile is_space s"

definition trimEnd :: "jsstring \<Rightarrow> jsstring" where
  "trimEnd s = rev (dropWhile is_space (rev s))"

definition trim :: "jsstring \<Rightarrow> jsstring" where
  "trim s = trimEnd (trimStart s)"

definition startsWith :: "jsstring \<Rightarrow> jsstring \<Rightarrow> bool" where
  "startsWith s p = (take (length p) s = p)"

text \<open>\<open>xs.join(sep)\<close>.\<close>

fun join :: "jsstring \<Rightarrow> jsstring list \<Rightarrow> jsstring" where
  "join sep [] = []"
| "join sep [x] = x"
| "join sep (x # y # ys) = x @ sep @ join sep (y # ys)"

text \<open>\<open>xs.find(p)\<close>: the first element that satisfies \<open>p\<close>, or undefined.\<close>

fun find_first :: "('a \<Rightarrow> bool) \<Rightarrow> 'a list \<Rightarrow> 'a option" where
  "find_first p [] = None"
| "find_first p (x # xs) = (if p x then Some x else find_first p xs)"

section \<open>Regular expressions as backtracking matchers\<close>

text \<open>
  Each regular expression of the source is written with the combinators below, one
  combinator for one token of the expression. A matcher takes the continuation that
  matches the rest of the expression and the input that is left; it answers \<open>None\<close>
  when no way of matching succeeds. The quantifiers are greedy and backtrack as the
  host's do: \<open>star\<close> first takes one more character, and only when the rest of the
  expression fails after that does it stop where it is.
\<close>

type_synonym 'r cont = "jsstring \<Rightarrow> 'r option"

definition accept :: "'r \<Rightarrow> 'r cont" where
  "accept r s = Some r"

definition eol :: "'r cont \<Rightarrow> 'r cont" where
  "eol k s = (if s = [] then k s else None)"

fun one :: "(jschar \<Rightarrow> bool) \<Rightarrow> 'r cont \<Rightarrow> 'r cont" where
  "one P k [] = None"
| "one P k (c # cs) = (if P c then k cs else None)"

fun lit :: "string \<Rightarrow> 'r cont \<Rightarrow> 'r cont" where
  "lit [] k = k"
| "lit (a # as) k = one (is_char a) (lit as k)"

fun star :: "(jschar \<Rightarrow> bool) \<Rightarrow> 'r cont \<Rightarrow> 'r cont" where
  "star P k [] = k []"
| "star P k (c # cs) =
     (if P c then (case star P k cs of Some r \<Rightarrow> Some r | None \<Rightarrow> k (c # cs))
      else k (c # cs))"

definition plus :: "(jschar \<Rightarrow> bool) \<Rightarrow> 'r cont \<Rightarrow> 'r cont" where
  "plus P k = one P (star P k)"

text \<open>An optional single character, \<open>c?\<close>.\<close>

fun opt_one :: "(jschar \<Rightarrow> bool) \<Rightarrow> 'r cont \<Rightarrow> 'r cont" where
  "opt_one P k [] = k []"
| "opt_one P k (c # cs) =
     (if P c then (case k cs of Some r \<Rightarrow> Some r | None \<Rightarrow> k (c # cs)) else k (c # cs))"

text \<open>Capturing groups around a starred class: the continuation also receives the
  text the group has matched (\<open>acc\<close> is what the group holds so far).\<close>

fun star_cap :: "(jschar \<Rightarrow> bool) \<Rightarrow> jsstring \<Rightarrow> (jsstring \<Rightarrow> 'r cont) \<Rightarrow> 'r cont" where
  "star_cap P acc k [] = k acc []"
| "star_cap P acc k (c # cs) =
     (if P c then (case star_cap P (acc @ [c]) k cs of Some r \<Rightarrow> Some r | None \<Rightarrow> k acc (c # cs))
      else k acc (c # cs))"

fun plus_cap :: "(jschar \<Rightarrow> bool) \<Rightarrow> (jsstring \<Rightarrow> 'r cont) \<Rightarrow> 'r cont" where
  "plus_cap P k [] = None"
| "plus_cap P k (c # cs) = (if P c then star_cap P [c] k cs else None)"

text \<open>An optional group that holds a capture: the continuation receives \<open>Some\<close> of the
  capture when the group took part in the match and \<open>None\<close> (undefined) when it did not.\<close>

definition opt_cap :: "((jsstring \<Rightarrow> 'r cont) \<Rightarrow> 'r cont) \<Rightarrow> (jsstring option \<Rightarrow> 'r cont) \<Rightarrow> 'r cont" where
  "opt_cap m k s = (case m (\<lambda>g. k (Some g)) s of Some r \<Rightarrow> Some r | None \<Rightarrow> k None s)"

text \<open>
  An expression that does not start with \<open>^\<close> is tried at every start position from the
  left; the first position with a match wins. \<open>\b\<close> needs the character before the
  position, which \<open>search\<close> hands to the expression.
\<close>

definition word_boundary :: "jschar option \<Rightarrow> 'r cont \<Rightarrow> 'r cont" where
  "word_boundary prev k s =
     (if (case prev of None \<Rightarrow> False | Some p \<Rightarrow> is_word p)
         \<noteq> (case s of [] \<Rightarrow> False | c # _ \<Rightarrow> is_word c)
      then k s else None)"

fun search :: "(jschar option \<Rightarrow> 'r cont) \<Rightarrow> jschar option \<Rightarrow> 'r cont" where
  "search m prev [] = m prev []"
| "search m prev (c # cs) =
     (case m prev (c # cs) of Some r \<Rightarrow> Some r | None \<Rightarrow> search m (Some c) cs)"

section \<open>\<open>String.prototype.split\<close> with a regular expression\<close>

text \<open>
  The separator is given as the length of its match at the start of the input, if any.
  The loop is the one of the language definition: at the position \<open>q\<close> the separator is
  tried; a match that ends where the last piece ended is skipped; otherwise the piece
  before \<open>q\<close> is emitted and the scan goes on behind the match. \<open>acc\<close> is the piece
  collected since the last separator.
\<close>

type_synonym separator = "jsstring \<Rightarrow> nat option"

function split_loop :: "separator \<Rightarrow> jsstring \<Rightarrow> jsstring \<Rightarrow> jsstring list" where
  "split_loop sep acc [] = [acc]"
| "split_loop sep acc (c # cs) =
     (case sep (c # cs) of
        None \<Rightarrow> split_loop sep (acc @ [c]) cs
      | Some 0 \<Rightarrow> (if acc = [] then split_loop sep [c] cs else acc # split_loop sep [c] cs)
      | Some (Suc n) \<Rightarrow> acc # split_loop sep [] (drop n cs))"
  by pat_completeness auto
termination
  by (relation "measure (\<lambda>(sep, acc, s). length s)") auto

definition split :: "separator \<Rightarrow> jsstring \<Rightarrow> jsstring list" where
  "split sep s = (if s = [] then (if sep [] = None then [[]] else []) else split_loop sep [] s)"

text \<open>The three separators of the source: \<open>/\r?\n/\<close>, \<open>/,\s*/\<close> and \<open>/,\s+/\<close>.
  A separator answers the length of what it matched.\<close>

definition match_len :: "jsstring \<Rightarrow> (jsstring \<Rightarrow> nat option)" where
  "match_len s rest = Some (length s - length rest)"

definition sep_newline :: separator where
  "sep_newline s = opt_one (is_char CHR 0x0D) (one (is_char CHR 0x0A) (match_len s)) s"

definition sep_comma_ws0 :: separator where
  "sep_comma_ws0 s = one (is_char CHR '','') (star is_space (match_len s)) s"

definition sep_comma_ws1 :: separator where
  "sep_comma_ws1 s = one (is_char CHR '','') (plus is_space (match_len s)) s"

section \<open>The data of the index\<close>

record MethodInfo =
  name :: jsstring
  params :: "jsstring list"
  returnType :: jsstring
  raw :: jsstring

record ModuleInfo =
  name :: jsstring
  description :: jsstring
  methods :: "MethodInfo list"
  types :: "jsstring list"

text \<open>
  The index is a \<open>Map\<close> of the host language, which iterates in insertion order: an
  association list. \<open>set\<close> on a new key appends, on a known key it replaces the value
  where it stands (\<open>AList.update\<close>); a write through a reference obtained by \<open>get\<close>
  changes the entry in place (\<open>AList.map_entry\<close>).
\<close>

type_synonym modules = "(jsstring \<times> ModuleInfo) list"

definition has :: "modules \<Rightarrow> jsstring \<Rightarrow> bool" where
  "has ms k = (map_of ms k \<noteq> None)"

definition get :: "modules \<Rightarrow> jsstring \<Rightarrow> ModuleInfo option" where
  "get ms k = map_of ms k"

section \<open>parseGlobals\<close>

text \<open>The description pattern \<open>/^#\s+(\w+)\s+[\<emdash>\<endash>-]\s+(.+)$/\<close>.\<close>

definition descMatch :: "jsstring \<Rightarrow> (jsstring \<times> jsstring) option" where
  "descMatch =
     lit ''#'' (plus is_space (plus_cap is_word (\<lambda>g1.
       plus is_space (one is_dash (plus is_space (plus_cap is_dot (\<lambda>g2.
         eol (accept (g1, g2)))))))))"

text \<open>The method pattern \<open>/^#\s+\.(\w+)\(([^)]*)\)(?:\s*->\s*(\w+))?/\<close>.\<close>

definition methodMatch :: "jsstring \<Rightarrow> (jsstring \<times> jsstring \<times> jsstring option) option" where
  "methodMatch =
     lit ''#'' (plus is_space (lit ''.'' (plus_cap is_word (\<lambda>g1.
       lit ''('' (star_cap not_rparen [] (\<lambda>g2. lit '')''
         (opt_cap (\<lambda>k. star is_space (lit ''->'' (star is_space (plus_cap is_word k))))
            (\<lambda>g3. accept (g1, g2, g3)))))))))"

text \<open>The types pattern \<open>/^#\s+Types?:\s*(.+)$/\<close>.\<close>

definition typesMatch :: "jsstring \<Rightarrow> jsstring option" where
  "typesMatch =
     lit ''#'' (plus is_space (lit ''Type'' (opt_one (is_char CHR ''s'') (lit '':''
       (star is_space (plus_cap is_dot (\<lambda>g1. eol (accept g1))))))))"

text \<open>\<open>trimmed.replace(/^#\s+/, '')\<close>: what follows the match, or the string itself
  when the pattern does not match.\<close>

definition strip_marker :: "jsstring \<Rightarrow> jsstring" where
  "strip_marker s = (case lit ''#'' (plus is_space Some) s of Some rest \<Rightarrow> rest | None \<Rightarrow> s)"

text \<open>
  The body of the loop over the lines. The state is the index and \<open>currentModule\<close>.
  In the source \<open>currentModule\<close> is a reference to an object of the index or null; the
  only objects it is ever given are \<open>modules.get(pendingName)\<close>, no entry of the index is
  ever removed or replaced by another object, and every entry is stored under its own
  \<open>name\<close>. So the reference is modelled by that key, and a write through the reference
  by a write to the entry of that key.
\<close>

type_synonym parser_state = "modules \<times> jsstring option"

definition new_module :: "jsstring \<Rightarrow> jsstring \<Rightarrow> ModuleInfo" where
  "new_module n d = \<lparr>ModuleInfo.name = n, description = d, methods = [], types = []\<rparr>"

definition parseLine :: "parser_state \<Rightarrow> jsstring \<Rightarrow> parser_state" where
  "parseLine st line =
     (let ms = fst st; currentModule = snd st; trimmed = trim line in
      case descMatch trimmed of
        Some (pendingName, pendingDesc) \<Rightarrow>
          ((if \<not> has ms pendingName
            then AList.update pendingName (new_module pendingName pendingDesc) ms
            else AList.map_entry pendingName (\<lambda>m. m\<lparr>description := pendingDesc\<rparr>) ms),
           Some pendingName)
      | None \<Rightarrow>
         if methodMatch trimmed \<noteq> None \<and> currentModule \<noteq> None
         then (let (mname, g2, g3) = the (methodMatch trimmed);
                   cur = the currentModule;
                   paramsStr = trim g2;
                   returnType = (case g3 of Some r \<Rightarrow> (if r = [] then js ''void'' else r)
                                          | None \<Rightarrow> js ''void'');
                   params = (if paramsStr \<noteq> [] then split sep_comma_ws0 paramsStr else [])
               in (AList.map_entry cur (\<lambda>m. m\<lparr>methods := methods m @
                     [\<lparr>MethodInfo.name = mname, params = params, returnType = returnType,
                       raw = strip_marker trimmed\<rparr>]\<rparr>) ms,
                   currentModule))
         else if typesMatch trimmed \<noteq> None \<and> currentModule \<noteq> None
         then (let g1 = the (typesMatch trimmed);
                   cur = the currentModule;
                   typeNames = map trim (split sep_comma_ws1 g1)
               in (AList.map_entry cur (\<lambda>m. m\<lparr>types := types m @ typeNames\<rparr>) ms,
                   currentModule))
         else if trimmed \<noteq> [] \<and> \<not> startsWith trimmed (js ''#'')
         then ((if currentModule = Some trimmed then ms
                else if \<not> has ms trimmed
                     then AList.update trimmed (new_module trimmed []) ms
                     else ms),
               None)
         else (ms, currentModule))"

text \<open>The loop over the lines, from the empty index and no current module.\<close>

definition parse_lines :: "jsstring list \<Rightarrow> parser_state" where
  "parse_lines ls = foldl parseLine ([], None) ls"

definition parseText :: "jsstring \<Rightarrow> modules" where
  "parseText text = fst (parse_lines (split sep_newline text))"

text \<open>The file system, as far as \<open>parseGlobals\<close> uses it: \<open>fs.existsSync\<close>, and
  \<open>fs.readFileSync\<close>, which throws when the file cannot be read.\<close>

datatype error = ReadError

record filesystem =
  existsSync :: "jsstring \<Rightarrow> bool"
  readFileSync :: "jsstring \<Rightarrow> error + jsstring"

definition parseGlobals :: "filesystem \<Rightarrow> jsstring \<Rightarrow> error + modules" where
  "parseGlobals fs filePath =
     (if \<not> existsSync fs filePath then Inr []
      else case readFileSync fs filePath of
             Inl e \<Rightarrow> Inl e
           | Inr text \<Rightarrow> Inr (parseText text))"

section \<open>The fixed tables\<close>

definition KEYWORDS :: "jsstring list" where
  "KEYWORDS = map js [''def'', ''if'', ''elif'', ''else'', ''while'', ''return'', ''pass'',
     ''assert'', ''module'', ''import'', ''and'', ''or'', ''not'']"

record ConstantInfo =
  name :: jsstring
  detail :: jsstring

definition CONSTANTS :: "ConstantInfo list" where
  "CONSTANTS =
     [\<lparr>ConstantInfo.name = js ''true'', detail = js ''Boolean true''\<rparr>,
      \<lparr>ConstantInfo.name = js ''false'', detail = js ''Boolean false''\<rparr>,
      \<lparr>ConstantInfo.name = js ''none'', detail = js ''Null value''\<rparr>]"

record BuiltinInfo =
  name :: jsstring
  signature :: jsstring
  detail :: jsstring

definition BUILTINS :: "BuiltinInfo list" where
  "BUILTINS =
     [\<lparr>BuiltinInfo.name = js ''len'', signature = js ''len(obj) -> float'',
       detail = js ''Returns the length of a list or collection''\<rparr>,
      \<lparr>BuiltinInfo.name = js ''float'', signature = js ''float(value) -> float'',
       detail = js ''Converts a value to float''\<rparr>,
      \<lparr>BuiltinInfo.name = js ''int'', signature = js ''int(value) -> float'',
       detail = js ''Truncates a float to integer (still returns float type)''\<rparr>,
      \<lparr>BuiltinInfo.name = js ''abs'', signature = js ''abs(value) -> float'',
       detail = js ''Returns the absolute value''\<rparr>]"

section \<open>What the providers hand to the editor\<close>

text \<open>A number inside a template literal: its decimal digits.\<close>

fun number_to_string :: "nat \<Rightarrow> jsstring" where
  "number_to_string n =
     (if n < 10 then [of_nat (48 + n)]
      else number_to_string (n div 10) @ [of_nat (48 + n mod 10)])"

declare number_to_string.simps [simp del]

text \<open>A \<open>MarkdownString\<close> is kept as the sequence of the pieces appended to it; how the
  editor renders a code block is the editor's business.\<close>

datatype md_part = Markdown jsstring | Codeblock jsstring jsstring

datatype documentation = MarkdownString "md_part list" | PlainString jsstring

datatype CompletionItemKind = Method | Module | Keyword | Constant | Function

record CompletionItem =
  label :: jsstring
  kind :: CompletionItemKind
  detail :: "jsstring option"
  documentation :: "documentation option"
  insertText :: "jsstring option"

record Hover =
  contents :: "md_part list"
  range :: "nat \<times> nat"

record SignatureInformation =
  label :: jsstring
  documentation :: jsstring
  parameters :: "jsstring list"

record SignatureHelp =
  signatures :: "SignatureInformation list"
  activeSignature :: nat
  activeParameter :: nat

text \<open>The text shown for a method: \<open>module.method(p1, p2)\<close>, and \<open> -> type\<close> behind it
  unless the type is \<open>void\<close>. The three providers build it with the same expression.\<close>

definition method_signature :: "jsstring \<Rightarrow> MethodInfo \<Rightarrow> jsstring" where
  "method_signature moduleName method =
     (let paramList = join (js '', '') (params method)
      in moduleName @ js ''.'' @ MethodInfo.name method @ js ''('' @ paramList @ js '')'' @
         (if returnType method \<noteq> js ''void'' then js '' -> '' @ returnType method else []))"

section \<open>provideCompletionItems\<close>

text \<open>The member pattern \<open>/\b(\w+)\.(\w*)$/\<close>.\<close>

definition dotMatch :: "jsstring \<Rightarrow> (jsstring \<times> jsstring) option" where
  "dotMatch =
     search (\<lambda>prev. word_boundary prev (plus_cap is_word (\<lambda>g1.
       lit ''.'' (star_cap is_word [] (\<lambda>g2. eol (accept (g1, g2))))))) None"

definition snippet_of :: "MethodInfo \<Rightarrow> jsstring" where
  "snippet_of method =
     (if length (params method) > 0
      then (let snippetParams = join (js '', '')
                  (map (\<lambda>(i, p). js ''${'' @ number_to_string (i + 1) @ js '':'' @ p @ js ''}'')
                       (List.enumerate 0 (params method)))
            in MethodInfo.name method @ js ''('' @ snippetParams @ js '')'')
      else MethodInfo.name method @ js ''()'')"

definition method_item :: "jsstring \<Rightarrow> MethodInfo \<Rightarrow> CompletionItem" where
  "method_item moduleName method =
     \<lparr>CompletionItem.label = MethodInfo.name method, kind = Method,
      CompletionItem.detail = Some (method_signature moduleName method),
      CompletionItem.documentation = Some (MarkdownString [Markdown
        (js ''**'' @ moduleName @ js ''**.'' @ MethodInfo.name method @ [0x0A, 0x0A] @
         js ''```'' @ [0x0A] @ raw method @ [0x0A] @ js ''```'')]),
      insertText = Some (snippet_of method)\<rparr>"

definition module_item :: "jsstring \<times> ModuleInfo \<Rightarrow> CompletionItem" where
  "module_item e =
     (let name = fst e; mdl = snd e in
      \<lparr>CompletionItem.label = name, kind = Module,
       CompletionItem.detail = Some (if description mdl \<noteq> [] then description mdl
                      else js ''Engine module: '' @ name),
       CompletionItem.documentation = Some (MarkdownString [Markdown
         (js ''**'' @ name @ js ''** '' @ [0x2014] @ js '' '' @ description mdl @ [0x0A, 0x0A] @
          number_to_string (length (methods mdl)) @ js '' methods available. Type `'' @
          name @ js ''.` to see them.'')]),
       insertText = None\<rparr>)"

definition keyword_item :: "jsstring \<Rightarrow> CompletionItem" where
  "keyword_item kw =
     \<lparr>CompletionItem.label = kw, kind = Keyword,
      CompletionItem.detail = Some (js ''keyword''), CompletionItem.documentation = None,
      insertText = None\<rparr>"

definition constant_item :: "ConstantInfo \<Rightarrow> CompletionItem" where
  "constant_item c =
     \<lparr>CompletionItem.label = ConstantInfo.name c, kind = Constant,
      CompletionItem.detail = Some (ConstantInfo.detail c),
      CompletionItem.documentation = None, insertText = None\<rparr>"

definition builtin_item :: "BuiltinInfo \<Rightarrow> CompletionItem" where
  "builtin_item b =
     \<lparr>CompletionItem.label = BuiltinInfo.name b, kind = Function,
      CompletionItem.detail = Some (signature b),
      CompletionItem.documentation = Some (PlainString (BuiltinInfo.detail b)),
      insertText = None\<rparr>"

definition top_level_items :: "modules \<Rightarrow> CompletionItem list" where
  "top_level_items ms =
     map module_item ms @ map keyword_item KEYWORDS @ map constant_item CONSTANTS @
     map builtin_item BUILTINS"

text \<open>\<open>lineText\<close> is the line of the cursor and \<open>character\<close> the cursor's column.\<close>

definition provideCompletionItems :: "modules \<Rightarrow> jsstring \<Rightarrow> nat \<Rightarrow> CompletionItem list" where
  "provideCompletionItems ms lineText character =
     (let textBefore = take character lineText in
      case dotMatch textBefore of
        Some (moduleName, partial) \<Rightarrow>
          (case get ms moduleName of
             Some mdl \<Rightarrow> map (method_item moduleName) (methods mdl)
           | None \<Rightarrow> [])
      | None \<Rightarrow> top_level_items ms)"

section \<open>provideHover\<close>

text \<open>\<open>s[i]\<close> is undefined outside the string; \<open>s.substring(a, b)\<close> swaps its arguments
  when \<open>a > b\<close> and stops at the end of the string.\<close>

definition char_at :: "jsstring \<Rightarrow> nat \<Rightarrow> jschar option" where
  "char_at s i = (if i < length s then Some (s ! i) else None)"

definition substring :: "jsstring \<Rightarrow> nat \<Rightarrow> nat \<Rightarrow> jsstring" where
  "substring s a b = take (max a b - min a b) (drop (min a b) s)"

text \<open>The pattern \<open>/(\w+)$/\<close>.\<close>

definition modMatch :: "jsstring \<Rightarrow> jsstring option" where
  "modMatch = search (\<lambda>prev. plus_cap is_word (\<lambda>g1. eol (accept g1))) None"

definition em_dash :: jsstring where
  "em_dash = [0x2014]"

definition method_hover :: "ModuleInfo \<Rightarrow> MethodInfo \<Rightarrow> md_part list" where
  "method_hover mdl method =
     (let sig = method_signature (ModuleInfo.name mdl) method
      in Codeblock sig (js ''xvm'') #
         (if description mdl \<noteq> []
          then [Markdown ([0x0A] @ js ''*Module: '' @ ModuleInfo.name mdl @ js '' '' @ em_dash @
                  js '' '' @ description mdl @ js ''*'')]
          else []))"

definition module_dot_hover :: "ModuleInfo \<Rightarrow> md_part list" where
  "module_dot_hover mdl =
     [Markdown (js ''**'' @ ModuleInfo.name mdl @ js ''** '' @ em_dash @ js '' '' @
                description mdl @ [0x0A, 0x0A]),
      Markdown (number_to_string (length (methods mdl)) @ js '' methods'')] @
     (if length (types mdl) > 0
      then [Markdown (js '' | Types: '' @ join (js '', '') (types mdl))] else [])"

definition module_hover :: "ModuleInfo \<Rightarrow> md_part list" where
  "module_hover mdl =
     [Markdown (js ''**'' @ ModuleInfo.name mdl @ js ''** '' @ em_dash @ js '' '' @
                description mdl @ [0x0A, 0x0A]),
      Markdown (number_to_string (length (methods mdl)) @ js '' methods available'')]"

definition builtin_hover :: "BuiltinInfo \<Rightarrow> md_part list" where
  "builtin_hover builtin =
     [Codeblock (signature builtin) (js ''xvm''), Markdown ([0x0A] @ BuiltinInfo.detail builtin)]"

definition keyword_hover :: "jsstring \<Rightarrow> md_part list" where
  "keyword_hover word = [Markdown (js ''**'' @ word @ js ''** '' @ em_dash @ js '' keyword'')]"

definition constant_hover :: "ConstantInfo \<Rightarrow> md_part list" where
  "constant_hover constant =
     [Markdown (js ''**'' @ ConstantInfo.name constant @ js ''** '' @ em_dash @ js '' '' @
                ConstantInfo.detail constant)]"

text \<open>
  \<open>wordRange\<close> is what the editor answers for the word under the cursor (the columns of
  its first character and of the character behind it), or \<open>None\<close> when the cursor is on
  no word. The source is a sequence of conditionals that return early; where one of them
  finds nothing, control falls through to the next statement. The three parts below are
  the first conditional (a dot before the word), the second one (a dot behind the word)
  and the statements that follow them.
\<close>

definition hover_after_dot :: "modules \<Rightarrow> jsstring \<Rightarrow> jsstring \<Rightarrow> nat \<Rightarrow> md_part list option" where
  "hover_after_dot ms lineText word charBefore =
     (if charBefore > 0 \<and> char_at lineText (charBefore - 1) = Some (of_char CHR ''.'')
      then (let beforeDot = substring lineText 0 (charBefore - 1) in
            case modMatch beforeDot of
              Some g1 \<Rightarrow>
                (case get ms g1 of
                   Some mdl \<Rightarrow>
                     (case find_first (\<lambda>m. MethodInfo.name m = word) (methods mdl) of
                        Some method \<Rightarrow> Some (method_hover mdl method)
                      | None \<Rightarrow> None)
                 | None \<Rightarrow> None)
            | None \<Rightarrow> None)
      else None)"

definition hover_before_dot :: "modules \<Rightarrow> jsstring \<Rightarrow> jsstring \<Rightarrow> nat \<Rightarrow> md_part list option" where
  "hover_before_dot ms lineText word charAfter =
     (if charAfter < length lineText \<and> char_at lineText charAfter = Some (of_char CHR ''.'')
      then (case get ms word of Some mdl \<Rightarrow> Some (module_dot_hover mdl) | None \<Rightarrow> None)
      else None)"

definition hover_standalone :: "modules \<Rightarrow> jsstring \<Rightarrow> md_part list option" where
  "hover_standalone ms word =
     (case get ms word of
        Some mdl \<Rightarrow> Some (module_hover mdl)
      | None \<Rightarrow>
     (case find_first (\<lambda>b. BuiltinInfo.name b = word) BUILTINS of
        Some builtin \<Rightarrow> Some (builtin_hover builtin)
      | None \<Rightarrow>
     (if word \<in> set KEYWORDS then Some (keyword_hover word)
      else
     (case find_first (\<lambda>c. ConstantInfo.name c = word) CONSTANTS of
        Some constant \<Rightarrow> Some (constant_hover constant)
      | None \<Rightarrow> None))))"

definition provideHover :: "modules \<Rightarrow> jsstring \<Rightarrow> (nat \<times> nat) option \<Rightarrow> Hover option" where
  "provideHover ms lineText wordRange =
     (case wordRange of
        None \<Rightarrow> None
      | Some (charBefore, charAfter) \<Rightarrow>
         (let word = substring lineText charBefore charAfter;
              hover = (\<lambda>md. Some \<lparr>contents = md, range = (charBefore, charAfter)\<rparr>)
          in
          case hover_after_dot ms lineText word charBefore of
            Some md \<Rightarrow> hover md
          | None \<Rightarrow>
         (case hover_before_dot ms lineText word charAfter of
            Some md \<Rightarrow> hover md
          | None \<Rightarrow>
         (case hover_standalone ms word of
            Some md \<Rightarrow> hover md
          | None \<Rightarrow> None))))"

section \<open>provideSignatureHelp\<close>

text \<open>
  The loop that walks back from the cursor. \<open>scan_back t n depth commaCount\<close> is the loop
  with \<open>i = n - 1\<close> as the next index to visit; it answers \<open>parenPos\<close> (still \<open>-1\<close> when
  the loop ran to the start of the text) and \<open>commaCount\<close>.
\<close>

fun scan_back :: "jsstring \<Rightarrow> nat \<Rightarrow> nat \<Rightarrow> nat \<Rightarrow> int \<times> nat" where
  "scan_back t 0 depth commaCount = (- 1, commaCount)"
| "scan_back t (Suc i) depth commaCount =
     (let ch = t ! i in
      if ch = of_char CHR '')'' then scan_back t i (depth + 1) commaCount
      else if ch = of_char CHR ''(''
      then (if depth = 0 then (int i, commaCount) else scan_back t i (depth - 1) commaCount)
      else if ch = of_char CHR '','' \<and> depth = 0 then scan_back t i depth (commaCount + 1)
      else scan_back t i depth commaCount)"

text \<open>The patterns \<open>/\b(\w+)$/\<close>, \<open>/\(([^)]*)\)/\<close> and \<open>/\b(\w+)\.(\w+)$/\<close>.\<close>

definition builtinMatch :: "jsstring \<Rightarrow> jsstring option" where
  "builtinMatch =
     search (\<lambda>prev. word_boundary prev (plus_cap is_word (\<lambda>g1. eol (accept g1)))) None"

definition paramMatch :: "jsstring \<Rightarrow> jsstring option" where
  "paramMatch =
     search (\<lambda>prev. lit ''('' (star_cap not_rparen [] (\<lambda>g1. lit '')'' (accept g1)))) None"

definition callMatch :: "jsstring \<Rightarrow> (jsstring \<times> jsstring) option" where
  "callMatch =
     search (\<lambda>prev. word_boundary prev (plus_cap is_word (\<lambda>g1.
       lit ''.'' (plus_cap is_word (\<lambda>g2. eol (accept (g1, g2))))))) None"

definition builtin_signature_help :: "BuiltinInfo \<Rightarrow> nat \<Rightarrow> SignatureHelp" where
  "builtin_signature_help builtin commaCount =
     \<lparr>signatures =
        [\<lparr>SignatureInformation.label = signature builtin,
          SignatureInformation.documentation = BuiltinInfo.detail builtin,
          parameters = (case paramMatch (signature builtin) of
                          Some g1 \<Rightarrow> (if g1 \<noteq> [] then split sep_comma_ws0 g1 else [])
                        | None \<Rightarrow> [])\<rparr>],
      activeSignature = 0, activeParameter = commaCount\<rparr>"

definition method_signature_help :: "jsstring \<Rightarrow> MethodInfo \<Rightarrow> nat \<Rightarrow> SignatureHelp" where
  "method_signature_help moduleName method commaCount =
     \<lparr>signatures =
        [\<lparr>SignatureInformation.label = method_signature moduleName method,
          SignatureInformation.documentation = raw method,
          parameters = params method\<rparr>],
      activeSignature = 0, activeParameter = commaCount\<rparr>"

definition provideSignatureHelp :: "modules \<Rightarrow> jsstring \<Rightarrow> nat \<Rightarrow> SignatureHelp option" where
  "provideSignatureHelp ms lineText character =
     (let textBefore = take character lineText;
          (parenPos, commaCount) = scan_back textBefore (length textBefore) 0 0
      in
      if parenPos < 0 then None
      else
        (let beforeParen = trimEnd (take (nat parenPos) textBefore) in
         case (case builtinMatch beforeParen of
                 Some g1 \<Rightarrow> find_first (\<lambda>b. BuiltinInfo.name b = g1) BUILTINS
               | None \<Rightarrow> None) of
           Some builtin \<Rightarrow> Some (builtin_signature_help builtin commaCount)
         | None \<Rightarrow>
           (case callMatch beforeParen of
              None \<Rightarrow> None
            | Some (moduleName, methodName) \<Rightarrow>
               (case get ms moduleName of
                  None \<Rightarrow> None
                | Some mdl \<Rightarrow>
                   (case find_first (\<lambda>m. MethodInfo.name m = methodName) (methods mdl) of
                      None \<Rightarrow> None
                    | Some method \<Rightarrow>
                        Some (method_signature_help moduleName method commaCount))))))"

section \<open>Notions used to state the properties\<close>

subsection \<open>The parser\<close>

text \<open>What stands behind the marker \<open>#\<close> and the white space that follows it, for a line
  that starts so. The three line patterns all begin with \<open>^#\s+\<close>.\<close>

definition marker_rest :: "jsstring \<Rightarrow> jsstring option" where
  "marker_rest s = (case s of [] \<Rightarrow> None
     | c # r \<Rightarrow> (case r of [] \<Rightarrow> None
         | d # r' \<Rightarrow> if c = 0x23 \<and> is_space d then Some (dropWhile is_space r') else None))"

text \<open>The invariants of the loop: the current module, when there is one, is an
  entry of the index; the keys of the index are distinct and every entry is stored under
  its own name.\<close>

definition current_ok :: "parser_state \<Rightarrow> bool" where
  "current_ok st = (case snd st of None \<Rightarrow> True | Some c \<Rightarrow> has (fst st) c)"

definition index_ok :: "modules \<Rightarrow> bool" where
  "index_ok ms = (distinct (map fst ms) \<and> list_all (\<lambda>e. ModuleInfo.name (snd e) = fst e) ms)"

text \<open>A list cut at every comma, and a list cut at the commas that have white space
  behind them.\<close>

fun comma_pieces :: "jsstring \<Rightarrow> jsstring list" where
  "comma_pieces [] = [[]]"
| "comma_pieces (c # cs) =
     (if c = of_char CHR '','' then [] # comma_pieces cs
      else (c # hd (comma_pieces cs)) # tl (comma_pieces cs))"

fun comma_space_pieces :: "jsstring \<Rightarrow> jsstring list" where
  "comma_space_pieces [] = [[]]"
| "comma_space_pieces (c # cs) =
     (if c = of_char CHR '','' \<and> cs \<noteq> [] \<and> is_space (hd cs) then [] # comma_space_pieces cs
      else (c # hd (comma_space_pieces cs)) # tl (comma_space_pieces cs))"

text \<open>A small index and the lines of a reference file that yield it.\<close>

definition example_vehicle :: ModuleInfo where
  "example_vehicle =
     \<lparr>ModuleInfo.name = js ''vehicle'', description = js ''The car'',
      methods = [\<lparr>MethodInfo.name = js ''Honk'', params = [], returnType = js ''void'',
                  raw = js ''.Honk()''\<rparr>,
                 \<lparr>MethodInfo.name = js ''SetSpeed'', params = [js ''v'', js ''mode''],
                  returnType = js ''float'', raw = js ''.SetSpeed(v, mode) -> float''\<rparr>],
      types = [js ''HitInfo'']\<rparr>"

definition example_index :: modules where
  "example_index =
     [(js ''engine'', new_module (js ''engine'') []), (js ''vehicle'', example_vehicle)]"

definition example_lines :: "jsstring list" where
  "example_lines = [js ''engine'', js ''# vehicle - The car'', js ''#   .Honk()'',
                    js ''#   .SetSpeed(v, mode) -> float'', js ''# Types: HitInfo'']"

subsection \<open>Identifiers at the end of a text\<close>

text \<open>
  \<open>trailing_word s\<close> is the longest run of \<open>\w\<close> characters that ends \<open>s\<close>, and
  \<open>member_access s\<close> reads \<open>s\<close> as \<open>... identifier . partial\<close>: the partial identifier is
  the trailing word (it may be empty), a dot stands before it, and the identifier is the
  non-empty trailing word of what stands before the dot. \<open>word_start pre\<close> says that a
  word which follows \<open>pre\<close> starts there: \<open>pre\<close> is empty or ends outside \<open>\w\<close>.
  \<open>prev_of\<close> and \<open>wordp\<close> name the character before a position of the search and
  whether it is a \<open>\w\<close> character.
\<close>

definition trailing_word :: "jsstring \<Rightarrow> jsstring" where
  "trailing_word s = rev (takeWhile is_word (rev s))"

definition before_trailing_word :: "jsstring \<Rightarrow> jsstring" where
  "before_trailing_word s = rev (dropWhile is_word (rev s))"

definition member_access :: "jsstring \<Rightarrow> (jsstring \<times> jsstring) option" where
  "member_access s =
     (let r = before_trailing_word s in
      if r \<noteq> [] \<and> last r = of_char CHR ''.'' \<and> trailing_word (butlast r) \<noteq> []
      then Some (trailing_word (butlast r), trailing_word s) else None)"

definition word_start :: "jsstring \<Rightarrow> bool" where
  "word_start pre = (pre = [] \<or> \<not> is_word (last pre))"

definition prev_of :: "jschar option \<Rightarrow> jsstring \<Rightarrow> jschar option" where
  "prev_of prev pre = (if pre = [] then prev else Some (last pre))"

definition wordp :: "jschar option \<Rightarrow> bool" where
  "wordp prev = (case prev of None \<Rightarrow> False | Some p \<Rightarrow> is_word p)"

subsection \<open>Signature help, as the specification words it\<close>

text \<open>
  \<open>depth_behind s j\<close> is the nesting depth of the index \<open>j\<close> seen from the end of \<open>s\<close>: the
  closing parentheses behind \<open>j\<close> minus the opening ones. The innermost parenthesis that
  is still open is the last \<open>(\<close> at depth zero, \<open>unmatched_open\<close>; the active parameter is
  the number of commas at depth zero behind it, \<open>active_commas\<close>. The callee is the text
  before that parenthesis without its trailing white space; it is resolved as a built-in
  function first and as \<open>module.method\<close> second.
\<close>

definition depth_behind :: "jsstring \<Rightarrow> nat \<Rightarrow> int" where
  "depth_behind s j =
     int (count_list (drop (Suc j) s) (of_char CHR '')'')) -
     int (count_list (drop (Suc j) s) (of_char CHR ''(''))"

fun last_open_below :: "jsstring \<Rightarrow> nat \<Rightarrow> nat option" where
  "last_open_below s 0 = None"
| "last_open_below s (Suc i) =
     (if s ! i = of_char CHR ''('' \<and> depth_behind s i = 0 then Some i else last_open_below s i)"

definition unmatched_open :: "jsstring \<Rightarrow> nat option" where
  "unmatched_open s = last_open_below s (length s)"

definition commas_in :: "jsstring \<Rightarrow> nat \<Rightarrow> nat \<Rightarrow> nat" where
  "commas_in s a b = length (filter (\<lambda>j. s ! j = of_char CHR '','' \<and> depth_behind s j = 0) [a..<b])"

definition active_commas :: "jsstring \<Rightarrow> nat \<Rightarrow> nat" where
  "active_commas s p = commas_in s (Suc p) (length s)"

text \<open>
  The usual reading of a text from left to right: \<open>balanced_from d t\<close> says that \<open>t\<close>, read
  with \<open>d\<close> parentheses open, never closes one that is not open and leaves none open.
  \<open>excess t\<close> is the number of closing parentheses of \<open>t\<close> minus that of the opening ones.
\<close>

fun balanced_from :: "nat \<Rightarrow> jsstring \<Rightarrow> bool" where
  "balanced_from d [] = (d = 0)"
| "balanced_from d (c # cs) =
     (if c = of_char CHR ''('' then balanced_from (Suc d) cs
      else if c = of_char CHR '')'' then (case d of 0 \<Rightarrow> False | Suc d' \<Rightarrow> balanced_from d' cs)
      else balanced_from d cs)"

definition balanced :: "jsstring \<Rightarrow> bool" where
  "balanced s = balanced_from 0 s"

definition excess :: "jsstring \<Rightarrow> int" where
  "excess t = int (count_list t (of_char CHR '')'')) - int (count_list t (of_char CHR ''(''))"

definition resolve_builtin :: "jsstring \<Rightarrow> BuiltinInfo option" where
  "resolve_builtin callee =
     (if trailing_word callee = [] then None
      else find_first (\<lambda>b. BuiltinInfo.name b = trailing_word callee) BUILTINS)"

definition resolve_method :: "modules \<Rightarrow> jsstring \<Rightarrow> (jsstring \<times> MethodInfo) option" where
  "resolve_method ms callee =
     (case member_access callee of
        None \<Rightarrow> None
      | Some (moduleName, methodName) \<Rightarrow>
          if methodName = [] then None
          else (case get ms moduleName of
                  None \<Rightarrow> None
                | Some mdl \<Rightarrow>
                    map_option (Pair moduleName)
                      (find_first (\<lambda>m. MethodInfo.name m = methodName) (methods mdl))))"

definition signature_help_spec :: "modules \<Rightarrow> jsstring \<Rightarrow> SignatureHelp option" where
  "signature_help_spec ms textBefore =
     (case unmatched_open textBefore of
        None \<Rightarrow> None
      | Some p \<Rightarrow>
          (let callee = trimEnd (take p textBefore);
               active = active_commas textBefore p
           in case resolve_builtin callee of
                Some builtin \<Rightarrow> Some (builtin_signature_help builtin active)
              | None \<Rightarrow>
                  (case resolve_method ms callee of
                     Some (moduleName, method) \<Rightarrow>
                       Some (method_signature_help moduleName method active)
                   | None \<Rightarrow> None)))"

subsection \<open>Hover, as a list of lookups in the order of their priority\<close>

text \<open>
  The lookups for the word between the columns \<open>start\<close> and \<open>behind\<close>: as a method of the
  module named before a dot that precedes the word; as a module when a dot follows the
  word; then as a module, a built-in function, a keyword and a constant, whatever stands
  next to the word. \<open>first_match\<close> takes the first lookup that found something.
\<close>

fun first_match :: "'a option list \<Rightarrow> 'a option" where
  "first_match [] = None"
| "first_match (Some x # xs) = Some x"
| "first_match (None # xs) = first_match xs"

definition hover_lookups :: "modules \<Rightarrow> jsstring \<Rightarrow> nat \<times> nat \<Rightarrow> md_part list option list" where
  "hover_lookups ms lineText r =
     (let start = fst r; behind = snd r;
          word = substring lineText start behind;
          owner = trailing_word (take (start - 1) lineText)
      in
      [if start > 0 \<and> char_at lineText (start - 1) = Some (of_char CHR ''.'') \<and> owner \<noteq> []
       then (case get ms owner of
               Some mdl \<Rightarrow> map_option (method_hover mdl)
                             (find_first (\<lambda>m. MethodInfo.name m = word) (methods mdl))
             | None \<Rightarrow> None)
       else None,
       if char_at lineText behind = Some (of_char CHR ''.'')
       then map_option module_dot_hover (get ms word) else None,
       map_option module_hover (get ms word),
       map_option builtin_hover (find_first (\<lambda>b. BuiltinInfo.name b = word) BUILTINS),
       if word \<in> set KEYWORDS then Some (keyword_hover word) else None,
       map_option constant_hover (find_first (\<lambda>c. ConstantInfo.name c = word) CONSTANTS)])"

section \<open>Lemmas\<close>

subsection \<open>Greedy repetition before a token that it cannot match\<close>

lemma star_skip:
  assumes "\<And>c cs. P c \<Longrightarrow> k (c # cs) = None"
  shows "star P k s = k (dropWhile P s)"
  using assms by (induction s) (auto split: option.splits)

lemma plus_skip:
  assumes "\<And>c cs. P c \<Longrightarrow> k (c # cs) = None"
  shows "plus P k s = (case s of [] \<Rightarrow> None | c # cs \<Rightarrow> if P c then k (dropWhile P cs) else None)"
  using star_skip [of P k, OF assms] by (cases s) (auto simp: plus_def)

lemma star_cap_skip:
  assumes "\<And>a c cs. P c \<Longrightarrow> k a (c # cs) = None"
  shows "star_cap P acc k s = k (acc @ takeWhile P s) (dropWhile P s)"
  using assms by (induction s arbitrary: acc) (auto split: option.splits)

lemma plus_cap_skip:
  assumes "\<And>a c cs. P c \<Longrightarrow> k a (c # cs) = None"
  shows "plus_cap P k s = (case s of [] \<Rightarrow> None | c # cs \<Rightarrow> if P c then k (c # takeWhile P cs) (dropWhile P cs) else None)"
  using star_cap_skip [of P k, OF assms] by (cases s) auto

lemma star_cap_eol:
  "star_cap P acc (\<lambda>g. eol (accept (f g))) s = (if list_all P s then Some (f (acc @ s)) else None)"
  by (induction s arbitrary: acc) (auto simp: eol_def accept_def)

lemma plus_cap_eol:
  "plus_cap P (\<lambda>g. eol (accept (f g))) s = (if s \<noteq> [] \<and> list_all P s then Some (f s) else None)"
  by (cases s) (auto simp: star_cap_eol)

lemma space_not_word: "is_space c \<Longrightarrow> \<not> is_word c"
  unfolding is_space_def is_word_def is_line_terminator_def
  by (auto simp: word_le_def word_less_def)

subsection \<open>The three line patterns exclude one another\<close>

lemma lit_hash: "lit ''#'' k s = (case s of [] \<Rightarrow> None | c # cs \<Rightarrow> if c = 0x23 then k cs else None)"
  by (cases s) (auto simp: is_char_def)

lemma space_not_char [simp]: "is_space c \<Longrightarrow> \<not> is_char CHR ''.'' c"
  "is_space c \<Longrightarrow> \<not> is_char CHR ''T'' c"
  "is_space c \<Longrightarrow> \<not> is_char CHR '','' c"
  "is_space c \<Longrightarrow> \<not> is_char CHR ''-'' c"
  unfolding is_space_def is_char_def is_line_terminator_def
  by (auto simp: word_le_def word_less_def)

lemma descMatch_marker:
  "descMatch s = (case marker_rest s of None \<Rightarrow> None
     | Some x \<Rightarrow> plus_cap is_word (\<lambda>g1.
       plus is_space (one is_dash (plus is_space (plus_cap is_dot (\<lambda>g2.
         eol (accept (g1, g2))))))) x)"
  unfolding descMatch_def lit_hash marker_rest_def
  by (subst plus_skip) (auto split: list.splits simp: space_not_word neq_Nil_conv)

lemma methodMatch_marker:
  "methodMatch s = (case marker_rest s of None \<Rightarrow> None
     | Some x \<Rightarrow> lit ''.'' (plus_cap is_word (\<lambda>g1.
       lit ''('' (star_cap not_rparen [] (\<lambda>g2. lit '')''
         (opt_cap (\<lambda>k. star is_space (lit ''->'' (star is_space (plus_cap is_word k))))
            (\<lambda>g3. accept (g1, g2, g3))))))) x)"
  unfolding methodMatch_def lit_hash marker_rest_def
  by (subst plus_skip) (auto split: list.splits)

lemma typesMatch_marker:
  "typesMatch s = (case marker_rest s of None \<Rightarrow> None
     | Some x \<Rightarrow> lit ''Type'' (opt_one (is_char CHR ''s'') (lit '':''
       (star is_space (plus_cap is_dot (\<lambda>g1. eol (accept g1)))))) x)"
  unfolding typesMatch_def lit_hash marker_rest_def
  by (subst plus_skip) (auto split: list.splits)

lemma one_Some: "one P k s = Some r \<longleftrightarrow> (\<exists>c t. s = c # t \<and> P c \<and> k t = Some r)"
  by (cases s) auto

lemma opt_one_Some:
  "opt_one P k s = Some r \<Longrightarrow> (\<exists>c t. s = c # t \<and> P c \<and> k t = Some r) \<or> k s = Some r"
  by (cases s) (auto split: if_splits option.splits)

lemma marker_rest_Some: "marker_rest s = Some x \<Longrightarrow> startsWith s (js ''#'')"
  by (auto simp: marker_rest_def startsWith_def js_def split: list.splits if_splits)

lemma descMatch_startsWith: "descMatch s = Some r \<Longrightarrow> startsWith s (js ''#'')"
  by (auto simp: descMatch_marker split: option.splits dest: marker_rest_Some)

lemma methodMatch_startsWith: "methodMatch s = Some r \<Longrightarrow> startsWith s (js ''#'')"
  by (auto simp: methodMatch_marker split: option.splits dest: marker_rest_Some)

lemma typesMatch_startsWith: "typesMatch s = Some r \<Longrightarrow> startsWith s (js ''#'')"
  by (auto simp: typesMatch_marker split: option.splits dest: marker_rest_Some)

lemma not_marker_no_match:
  assumes "\<not> startsWith s (js ''#'')"
  shows "descMatch s = None" "methodMatch s = None" "typesMatch s = None"
  using assms descMatch_startsWith methodMatch_startsWith typesMatch_startsWith
  by (metis not_Some_eq)+

lemma methodMatch_not_desc:
  assumes "methodMatch s = Some r" shows "descMatch s = None"
proof -
  from assms obtain x where x: "marker_rest s = Some x"
    by (auto simp: methodMatch_marker split: option.splits)
  with assms obtain t where "x = of_char CHR ''.'' # t"
    by (auto simp: methodMatch_marker one_Some is_char_def)
  with x show ?thesis
    by (simp add: descMatch_marker is_word_def)
qed

lemma typesMatch_not_method:
  assumes "typesMatch s = Some r" shows "methodMatch s = None"
proof -
  from assms obtain x where x: "marker_rest s = Some x"
    by (auto simp: typesMatch_marker split: option.splits)
  with assms obtain t where "x = of_char CHR ''T'' # t"
    by (auto simp: typesMatch_marker one_Some is_char_def)
  with x show ?thesis
    by (simp add: methodMatch_marker is_char_def)
qed

lemma desc_tail_fails_on_word:
  "is_word c \<Longrightarrow> plus is_space k (c # cs) = None"
  using space_not_word by (auto simp: plus_def)

lemma typesMatch_not_desc:
  assumes "typesMatch s = Some r" shows "descMatch s = None"
proof -
  from assms obtain x where x: "marker_rest s = Some x"
    by (auto simp: typesMatch_marker split: option.splits)
  with assms obtain t where t: "x = js ''Type'' @ t"
    and k: "opt_one (is_char CHR ''s'') (one (is_char CHR '':'') (star is_space (plus_cap is_dot (\<lambda>g1. eol (accept g1))))) t = Some r"
    by (auto simp: typesMatch_marker one_Some is_char_def js_def)
  from opt_one_Some [OF k] obtain u where "t = js '':'' @ u \<or> t = js ''s:'' @ u"
    by (auto simp: one_Some js_def is_char_def)
  with t have "\<exists>w u. x = w @ 0x3A # u \<and> w \<noteq> [] \<and> list_all is_word w \<and> hd x = hd w"
    by (auto simp: js_def is_word_def intro: exI [of _ "js ''Type''"] exI [of _ "js ''Types''"])
  then obtain w u where w: "x = w @ 0x3A # u" "w \<noteq> []" "list_all is_word w"
    by blast
  have nw: "\<not> is_word 0x3A" by (simp add: is_word_def)
  have tw: "takeWhile is_word x = w" "dropWhile is_word x = 0x3A # u"
    using w nw by (auto simp: takeWhile_append2 dropWhile_append2 list_all_iff)
  obtain c cs where ccs: "w = c # cs" using w by (cases w) auto
  have "plus_cap is_word (\<lambda>g1.
       plus is_space (one is_dash (plus is_space (plus_cap is_dot (\<lambda>g2.
         eol (accept (g1, g2))))))) x = None"
    apply (subst plus_cap_skip)
     apply (simp add: desc_tail_fails_on_word)
    using w tw ccs apply (auto simp: plus_def is_space_def is_line_terminator_def split: list.splits)
    done
  with x show ?thesis by (simp add: descMatch_marker)
qed

subsection \<open>The steps of the parser and its invariants\<close>

lemma update_new_key: "\<not> has ms k \<Longrightarrow> AList.update k v ms = ms @ [(k, v)]"
  by (induction ms) (auto simp: has_def)

lemma keys_map_entry: "map fst (AList.map_entry k f ms) = map fst ms"
  by (induction ms) auto

lemma has_map_entry: "has (AList.map_entry k f ms) c = has ms c"
  by (auto simp: has_def map_of_map_entry split: option.splits)

lemma has_update: "has (AList.update k v ms) c = (c = k \<or> has ms c)"
  by (auto simp: has_def AList.update_conv')

lemma parseLine_desc:
  assumes "descMatch (trim line) = Some (n, d)"
  shows "parseLine (ms, cur) line =
    ((if \<not> has ms n then AList.update n (new_module n d) ms
      else AList.map_entry n (\<lambda>m. m\<lparr>description := d\<rparr>) ms), Some n)"
  using assms by (simp add: parseLine_def)

lemma parseLine_marker_no_module:
  assumes "startsWith (trim line) (js ''#'')" "descMatch (trim line) = None"
  shows "parseLine (ms, None) line = (ms, None)"
  using assms by (simp add: parseLine_def split: option.splits)

lemma parseLine_current_ok:
  assumes "current_ok st" shows "current_ok (parseLine st line)"
proof (cases st)
  case (Pair ms cur)
  show ?thesis
  proof (cases "descMatch (trim line)")
    case (Some nd)
    then show ?thesis using Pair
      by (cases nd) (auto simp: parseLine_desc current_ok_def has_update has_map_entry)
  next
    case None
    then show ?thesis using Pair assms
      by (auto simp: parseLine_def current_ok_def has_map_entry Let_def split: option.splits)
  qed
qed

lemma parse_lines_current_ok: "current_ok (parse_lines ls)"
proof (induction ls rule: rev_induct)
  case Nil
  show ?case by (simp add: parse_lines_def current_ok_def)
next
  case (snoc l ls)
  then show ?case using parseLine_current_ok [of "parse_lines ls" l]
    by (simp add: parse_lines_def)
qed

lemma marker_lines_dropped:
  assumes "\<forall>l \<in> set following. startsWith (trim l) (js ''#'') \<and> descMatch (trim l) = None"
  shows "foldl parseLine (ms, None) following = (ms, None)"
  using assms by (induction following) (auto simp: parseLine_marker_no_module)

lemma parseLine_bare:
  assumes "trim line \<noteq> []" "\<not> startsWith (trim line) (js ''#'')" "current_ok (ms, cur)"
  shows "parseLine (ms, cur) line =
     ((if has ms (trim line) then ms else ms @ [(trim line, new_module (trim line) [])]), None)"
  using assms not_marker_no_match [OF assms(2)]
  by (auto simp: parseLine_def current_ok_def update_new_key Let_def split: option.splits)

lemma index_ok_update_new:
  "index_ok ms \<Longrightarrow> \<not> has ms k \<Longrightarrow> index_ok (AList.update k (new_module k d) ms)"
  by (auto simp: index_ok_def update_new_key new_module_def has_def map_of_eq_None_iff)

lemma index_ok_map_entry:
  assumes "index_ok ms" "\<And>m. ModuleInfo.name (f m) = ModuleInfo.name m"
  shows "index_ok (AList.map_entry k f ms)"
  using assms by (induction ms) (auto simp: index_ok_def keys_map_entry)

lemma parseLine_index_ok:
  assumes "index_ok (fst st)" shows "index_ok (fst (parseLine st line))"
  using assms
  by (auto simp: parseLine_def Let_def index_ok_update_new index_ok_map_entry
           split: option.splits prod.splits)

lemma parse_lines_index_ok: "index_ok (fst (parse_lines ls))"
proof (induction ls rule: rev_induct)
  case Nil
  show ?case by (simp add: parse_lines_def index_ok_def)
next
  case (snoc l ls)
  then show ?case using parseLine_index_ok [of "parse_lines ls" l]
    by (simp add: parse_lines_def)
qed

subsection \<open>The leftmost match\<close>

lemma prev_of_simps [simp]:
  "prev_of prev [] = prev" "prev_of prev (c # pre) = prev_of (Some c) pre"
  by (simp_all add: prev_of_def)

lemma search_hit: "m prev s = Some r \<Longrightarrow> search m prev s = Some r"
  by (cases s) auto

lemma search_Some:
  "search m prev s = Some r \<Longrightarrow>
     \<exists>pre s'. s = pre @ s' \<and> m (prev_of prev pre) s' = Some r \<and>
       (\<forall>p1 p2. pre = p1 @ p2 \<and> p2 \<noteq> [] \<longrightarrow> m (prev_of prev p1) (p2 @ s') = None)"
proof (induction s arbitrary: prev)
  case Nil
  then show ?case by (auto intro!: exI [of _ "[]"])
next
  case (Cons c cs)
  show ?case
  proof (cases "m prev (c # cs)")
    case (Some x)
    with Cons.prems have "m prev (c # cs) = Some r" by simp
    then have "c # cs = [] @ (c # cs) \<and> m (prev_of prev []) (c # cs) = Some r \<and>
       (\<forall>p1 p2. [] = p1 @ p2 \<and> p2 \<noteq> [] \<longrightarrow> m (prev_of prev p1) (p2 @ c # cs) = None)"
      by simp
    then show ?thesis by blast
  next
    case None
    with Cons.prems have "search m (Some c) cs = Some r" by simp
    from Cons.IH [OF this] obtain pre s' where
      p: "cs = pre @ s'" "m (prev_of (Some c) pre) s' = Some r"
        "\<forall>p1 p2. pre = p1 @ p2 \<and> p2 \<noteq> [] \<longrightarrow> m (prev_of (Some c) p1) (p2 @ s') = None"
      by blast
    have "c # cs = (c # pre) @ s'" using p by simp
    moreover have "m (prev_of prev (c # pre)) s' = Some r"
      using p(2) by simp
    moreover have "m (prev_of prev p1) (p2 @ s') = None" if "c # pre = p1 @ p2" "p2 \<noteq> []" for p1 p2
    proof (cases p1)
      case Nil
      then show ?thesis using that None p(1) by auto
    next
      case (Cons a p1')
      then have "pre = p1' @ p2" "a = c" using that by auto
      then show ?thesis using p(3) that(2) Cons by auto
    qed
    ultimately show ?thesis by blast
  qed
qed

lemma search_skip:
  assumes "\<And>p1 p2. pre = p1 @ p2 \<Longrightarrow> p2 \<noteq> [] \<Longrightarrow> m (prev_of prev p1) (p2 @ rest) = None"
  shows "search m prev (pre @ rest) = search m (prev_of prev pre) rest"
  using assms
proof (induction pre arbitrary: prev)
  case Nil
  then show ?case by simp
next
  case (Cons c pre)
  have 0: "m prev (c # pre @ rest) = None"
    using Cons.prems [of "[]" "c # pre"] by simp
  have "search m (Some c) (pre @ rest) = search m (prev_of (Some c) pre) rest"
  proof (rule Cons.IH)
    fix p1 p2 assume "pre = p1 @ p2" "p2 \<noteq> []"
    then show "m (prev_of (Some c) p1) (p2 @ rest) = None"
      using Cons.prems [of "c # p1" p2] by simp
  qed
  then show ?case using 0 by simp
qed

lemma search_None:
  "search m prev s = None \<longleftrightarrow> (\<forall>p1 p2. s = p1 @ p2 \<longrightarrow> m (prev_of prev p1) p2 = None)"
proof
  assume n: "search m prev s = None"
  show "\<forall>p1 p2. s = p1 @ p2 \<longrightarrow> m (prev_of prev p1) p2 = None"
    using n
  proof (induction s arbitrary: prev)
    case Nil
    then show ?case by simp
  next
    case (Cons c cs)
    from Cons.prems have a: "m prev (c # cs) = None" and b: "search m (Some c) cs = None"
      by (auto split: option.splits)
    show ?case
    proof (intro allI impI)
      fix p1 p2 assume s: "c # cs = p1 @ p2"
      show "m (prev_of prev p1) p2 = None"
      proof (cases p1)
        case Nil
        then show ?thesis using s a by simp
      next
        case (Cons x p1')
        then have "cs = p1' @ p2" "x = c" using s by auto
        then show ?thesis using Cons.IH [OF b] Cons by auto
      qed
    qed
  qed
next
  assume a: "\<forall>p1 p2. s = p1 @ p2 \<longrightarrow> m (prev_of prev p1) p2 = None"
  show "search m prev s = None"
  proof (rule ccontr)
    assume "search m prev s \<noteq> None"
    then obtain r where "search m prev s = Some r" by auto
    from search_Some [OF this] a show False by force
  qed
qed

subsection \<open>The patterns that end in identifiers\<close>

lemma trailing_word_append:
  assumes "list_all is_word w" "word_start pre"
  shows "trailing_word (pre @ w) = w" "before_trailing_word (pre @ w) = pre"
proof -
  have 1: "takeWhile is_word (rev pre) = []" "dropWhile is_word (rev pre) = rev pre"
    using assms(2) by (cases pre rule: rev_cases; simp add: word_start_def)+
  have 2: "\<And>x. x \<in> set (rev w) \<Longrightarrow> is_word x"
    using assms(1) by (simp add: list_all_iff)
  have 3: "takeWhile is_word (rev w @ rev pre) = rev w @ takeWhile is_word (rev pre)"
    "dropWhile is_word (rev w @ rev pre) = dropWhile is_word (rev pre)"
    using 2 by (simp_all only: takeWhile_append2 dropWhile_append2)
  show "trailing_word (pre @ w) = w" "before_trailing_word (pre @ w) = pre"
    using 1 3 by (simp_all add: trailing_word_def before_trailing_word_def)
qed

lemma trailing_word_decomp:
  "before_trailing_word s @ trailing_word s = s"
  "list_all is_word (trailing_word s)"
  "word_start (before_trailing_word s)"
proof -
  have "rev (dropWhile is_word (rev s)) @ rev (takeWhile is_word (rev s)) = rev (rev s)"
    by (simp only: rev_append [symmetric] takeWhile_dropWhile_id)
  then show "before_trailing_word s @ trailing_word s = s"
    by (simp add: trailing_word_def before_trailing_word_def)
  show "list_all is_word (trailing_word s)"
    by (auto simp: trailing_word_def list_all_iff dest: set_takeWhileD)
  show "word_start (before_trailing_word s)"
    using hd_dropWhile [of is_word "rev s"]
    by (auto simp: before_trailing_word_def word_start_def last_rev)
qed

lemma word_run_inner:
  "plus_cap is_word (\<lambda>g1. eol (accept g1)) s = (if s \<noteq> [] \<and> list_all is_word s then Some s else None)"
  using plus_cap_eol [where f = "\<lambda>g. g"] by simp

lemma not_word_dot [simp]: "\<not> is_word 0x2E" "\<not> is_word (of_char CHR ''.'')"
  by (simp_all add: is_word_def)

lemma dot_then_words:
  "one (is_char CHR ''.'') (star_cap is_word [] (\<lambda>g2. eol (accept (f g2)))) r =
     (if r \<noteq> [] \<and> hd r = 0x2E \<and> list_all is_word (tl r) then Some (f (tl r)) else None)"
  by (cases r) (auto simp: star_cap_eol is_char_def)

lemma dot_then_word:
  "one (is_char CHR ''.'') (plus_cap is_word (\<lambda>g2. eol (accept (f g2)))) r =
     (if r \<noteq> [] \<and> hd r = 0x2E \<and> tl r \<noteq> [] \<and> list_all is_word (tl r) then Some (f (tl r)) else None)"
  by (cases r) (auto simp: plus_cap_eol is_char_def)

lemma member_inner:
  "plus_cap is_word (\<lambda>g1. one (is_char CHR ''.'') (star_cap is_word [] (\<lambda>g2. eol (accept (g1, g2))))) s =
     (let g1 = takeWhile is_word s; r = dropWhile is_word s in
      if g1 \<noteq> [] \<and> r \<noteq> [] \<and> hd r = 0x2E \<and> list_all is_word (tl r) then Some (g1, tl r) else None)"
proof -
  have "plus_cap is_word (\<lambda>g1. one (is_char CHR ''.'') (star_cap is_word [] (\<lambda>g2. eol (accept (g1, g2))))) s =
    (case s of [] \<Rightarrow> None | c # cs \<Rightarrow> if is_word c
       then one (is_char CHR ''.'') (star_cap is_word [] (\<lambda>g2. eol (accept (c # takeWhile is_word cs, g2)))) (dropWhile is_word cs)
       else None)"
    by (rule plus_cap_skip) (auto simp: is_char_def)
  then show ?thesis
    by (cases s) (simp_all add: dot_then_words Let_def)
qed

lemma call_inner:
  "plus_cap is_word (\<lambda>g1. one (is_char CHR ''.'') (plus_cap is_word (\<lambda>g2. eol (accept (g1, g2))))) s =
     (let g1 = takeWhile is_word s; r = dropWhile is_word s in
      if g1 \<noteq> [] \<and> r \<noteq> [] \<and> hd r = 0x2E \<and> tl r \<noteq> [] \<and> list_all is_word (tl r) then Some (g1, tl r) else None)"
proof -
  have "plus_cap is_word (\<lambda>g1. one (is_char CHR ''.'') (plus_cap is_word (\<lambda>g2. eol (accept (g1, g2))))) s =
    (case s of [] \<Rightarrow> None | c # cs \<Rightarrow> if is_word c
       then one (is_char CHR ''.'') (plus_cap is_word (\<lambda>g2. eol (accept (c # takeWhile is_word cs, g2)))) (dropWhile is_word cs)
       else None)"
    by (rule plus_cap_skip) (auto simp: is_char_def)
  then show ?thesis
    by (cases s) (simp_all add: dot_then_word Let_def)
qed

lemma wordp_prev_of: "wordp (prev_of None pre) = (\<not> word_start pre)"
  by (cases pre rule: rev_cases) (auto simp: wordp_def prev_of_def word_start_def)

lemma word_boundary_eq:
  "word_boundary prev k s = (if wordp prev \<noteq> (s \<noteq> [] \<and> is_word (hd s)) then k s else None)"
  by (cases s) (auto simp: word_boundary_def wordp_def)

lemma filter_nonword_words: "list_all is_word w \<Longrightarrow> filter (\<lambda>c. \<not> is_word c) w = []"
  by (induction w) auto

lemma member_inner_iff:
  "plus_cap is_word (\<lambda>g1. one (is_char CHR ''.'') (star_cap is_word [] (\<lambda>g2. eol (accept (g1, g2))))) s = Some (a, b)
   \<longleftrightarrow> s = a @ 0x2E # b \<and> a \<noteq> [] \<and> list_all is_word a \<and> list_all is_word b"
  (is "?L \<longleftrightarrow> ?R")
proof
  assume ?L
  then have g: "a = takeWhile is_word s" "dropWhile is_word s \<noteq> []" "hd (dropWhile is_word s) = 0x2E"
     "b = tl (dropWhile is_word s)" "a \<noteq> []" "list_all is_word b"
    by (auto simp: member_inner Let_def split: if_splits)
  have "s = takeWhile is_word s @ dropWhile is_word s" by simp
  also have "dropWhile is_word s = 0x2E # b" using g by (cases "dropWhile is_word s") auto
  finally have "s = a @ 0x2E # b" using g by simp
  moreover have "list_all is_word a" using g by (auto simp: list_all_iff dest: set_takeWhileD)
  ultimately show ?R using g by simp
next
  assume r: ?R
  then have "takeWhile is_word s = a" "dropWhile is_word s = 0x2E # b"
    by (auto simp: takeWhile_append2 dropWhile_append2 list_all_iff)
  with r show ?L by (simp add: member_inner)
qed

lemma call_inner_iff:
  "plus_cap is_word (\<lambda>g1. one (is_char CHR ''.'') (plus_cap is_word (\<lambda>g2. eol (accept (g1, g2))))) s = Some (a, b)
   \<longleftrightarrow> s = a @ 0x2E # b \<and> a \<noteq> [] \<and> b \<noteq> [] \<and> list_all is_word a \<and> list_all is_word b"
  (is "?L \<longleftrightarrow> ?R")
proof
  assume ?L
  then have g: "a = takeWhile is_word s" "dropWhile is_word s \<noteq> []" "hd (dropWhile is_word s) = 0x2E"
     "b = tl (dropWhile is_word s)" "a \<noteq> []" "list_all is_word b" "b \<noteq> []"
    by (auto simp: call_inner Let_def split: if_splits)
  have "s = takeWhile is_word s @ dropWhile is_word s" by simp
  also have "dropWhile is_word s = 0x2E # b" using g by (cases "dropWhile is_word s") auto
  finally have "s = a @ 0x2E # b" using g by simp
  moreover have "list_all is_word a" using g by (auto simp: list_all_iff dest: set_takeWhileD)
  ultimately show ?R using g by simp
next
  assume r: ?R
  then have "takeWhile is_word s = a" "dropWhile is_word s = 0x2E # b"
    by (auto simp: takeWhile_append2 dropWhile_append2 list_all_iff)
  with r show ?L by (simp add: call_inner)
qed

text \<open>A text that holds a character outside \<open>\w\<close> before its last dot is no member access.\<close>

lemma member_shape_unique:
  assumes "p2 @ a @ 0x2E # b = x @ 0x2E # y"
    and "list_all is_word a" "list_all is_word b" "list_all is_word x" "list_all is_word y"
  shows "list_all is_word p2"
proof -
  have "filter (\<lambda>c. \<not> is_word c) (p2 @ a @ 0x2E # b) = filter (\<lambda>c. \<not> is_word c) (x @ 0x2E # y)"
    using assms(1) by simp
  then have "filter (\<lambda>c. \<not> is_word c) p2 = []"
    using assms(2-5) by (simp add: filter_nonword_words)
  then show ?thesis by (simp add: filter_empty_conv list_all_iff)
qed

lemma member_search_iff:
  assumes inner: "\<And>s a b. inner s = Some (a, b) \<longleftrightarrow>
      s = a @ 0x2E # b \<and> a \<noteq> [] \<and> Q b \<and> list_all is_word a \<and> list_all is_word b"
  shows "search (\<lambda>prev. word_boundary prev inner) None s = Some (a, b) \<longleftrightarrow>
     (\<exists>pre. s = pre @ a @ 0x2E # b \<and> word_start pre \<and> a \<noteq> [] \<and> Q b
         \<and> list_all is_word a \<and> list_all is_word b)"
  (is "?L \<longleftrightarrow> ?R")
proof
  assume ?L
  from search_Some [OF this] obtain pre s' where
    p: "s = pre @ s'" "word_boundary (prev_of None pre) inner s' = Some (a, b)"
    by blast
  from p(2) have i: "inner s' = Some (a, b)" and w: "wordp (prev_of None pre) \<noteq> (s' \<noteq> [] \<and> is_word (hd s'))"
    by (auto simp: word_boundary_eq split: if_splits)
  from i have s': "s' = a @ 0x2E # b" "a \<noteq> []" "Q b" "list_all is_word a" "list_all is_word b"
    by (simp_all add: inner)
  then have "is_word (hd s')" by (cases a) auto
  with w s' have "word_start pre" by (auto simp: wordp_prev_of)
  with p(1) s' show ?R by blast
next
  assume ?R
  then obtain pre where
    p: "s = pre @ a @ 0x2E # b" "word_start pre" "a \<noteq> []" "Q b" "list_all is_word a" "list_all is_word b"
    by blast
  let ?m = "\<lambda>prev. word_boundary prev inner"
  have skip: "?m (prev_of None p1) (p2 @ a @ 0x2E # b) = None" if "pre = p1 @ p2" "p2 \<noteq> []" for p1 p2
  proof -
    have "inner (p2 @ a @ 0x2E # b) = None"
    proof (rule ccontr)
      assume "inner (p2 @ a @ 0x2E # b) \<noteq> None"
      then obtain x y where "inner (p2 @ a @ 0x2E # b) = Some (x, y)" by auto
      then have "p2 @ a @ 0x2E # b = x @ 0x2E # y" "list_all is_word x" "list_all is_word y"
        by (simp_all add: inner)
      from member_shape_unique [OF this(1) p(5,6) this(2,3)] have "list_all is_word p2" .
      then have "is_word (last p2)" using that(2) by (simp add: list_all_iff)
      then show False using p(2) that by (simp add: word_start_def)
    qed
    then show ?thesis by (simp add: word_boundary_eq)
  qed
  have hit: "?m (prev_of None pre) (a @ 0x2E # b) = Some (a, b)"
  proof -
    have "inner (a @ 0x2E # b) = Some (a, b)" using p by (simp add: inner)
    moreover have "is_word (hd (a @ 0x2E # b))" using p(3,5) by (cases a) auto
    ultimately show ?thesis using p(2) by (simp add: word_boundary_eq wordp_prev_of)
  qed
  have "search ?m None (pre @ (a @ 0x2E # b)) = search ?m (prev_of None pre) (a @ 0x2E # b)"
    by (rule search_skip) (use skip in auto)
  also have "\<dots> = Some (a, b)" using hit by (rule search_hit)
  finally show ?L using p(1) by simp
qed

lemma dotMatch_iff:
  "dotMatch s = Some (a, b) \<longleftrightarrow>
     (\<exists>pre. s = pre @ a @ 0x2E # b \<and> word_start pre \<and> a \<noteq> []
         \<and> list_all is_word a \<and> list_all is_word b)"
proof -
  let ?inner = "plus_cap is_word (\<lambda>g1. one (is_char CHR ''.'') (star_cap is_word [] (\<lambda>g2. eol (accept (g1, g2)))))"
  have "\<And>s a b. ?inner s = Some (a, b) \<longleftrightarrow>
      s = a @ 0x2E # b \<and> a \<noteq> [] \<and> True \<and> list_all is_word a \<and> list_all is_word b"
    using member_inner_iff by simp
  from member_search_iff [of ?inner "\<lambda>b. True", OF this]
  show ?thesis unfolding dotMatch_def by simp
qed

lemma callMatch_iff:
  "callMatch s = Some (a, b) \<longleftrightarrow>
     (\<exists>pre. s = pre @ a @ 0x2E # b \<and> word_start pre \<and> a \<noteq> [] \<and> b \<noteq> []
         \<and> list_all is_word a \<and> list_all is_word b)"
proof -
  let ?inner = "plus_cap is_word (\<lambda>g1. one (is_char CHR ''.'') (plus_cap is_word (\<lambda>g2. eol (accept (g1, g2)))))"
  have "\<And>s a b. ?inner s = Some (a, b) \<longleftrightarrow>
      s = a @ 0x2E # b \<and> a \<noteq> [] \<and> b \<noteq> [] \<and> list_all is_word a \<and> list_all is_word b"
    using call_inner_iff by simp
  from member_search_iff [of ?inner "\<lambda>b. b \<noteq> []", OF this]
  show ?thesis unfolding callMatch_def by simp
qed

lemma member_access_iff:
  "member_access s = Some (a, b) \<longleftrightarrow>
     (\<exists>pre. s = pre @ a @ 0x2E # b \<and> word_start pre \<and> a \<noteq> []
         \<and> list_all is_word a \<and> list_all is_word b)"
  (is "?L \<longleftrightarrow> ?R")
proof
  assume l: ?L
  let ?r = "before_trailing_word s"
  from l have r: "?r \<noteq> []" "last ?r = 0x2E" "a = trailing_word (butlast ?r)" "a \<noteq> []"
     "b = trailing_word s"
    by (auto simp: member_access_def Let_def split: if_splits)
  have "s = ?r @ b" using r trailing_word_decomp(1) [of s] by simp
  also have "?r = butlast ?r @ [0x2E]" using r by (metis append_butlast_last_id)
  also have "butlast ?r = before_trailing_word (butlast ?r) @ a"
    using r trailing_word_decomp(1) [of "butlast ?r"] by simp
  finally have "s = before_trailing_word (butlast ?r) @ a @ 0x2E # b" by simp
  then show ?R using r trailing_word_decomp(2,3) by blast
next
  assume ?R
  then obtain pre where
    p: "s = pre @ a @ 0x2E # b" "word_start pre" "a \<noteq> []" "list_all is_word a" "list_all is_word b"
    by blast
  have 1: "trailing_word s = b" "before_trailing_word s = pre @ a @ [0x2E]"
    using trailing_word_append [of b "pre @ a @ [0x2E]"] p by (simp_all add: word_start_def)
  have 2: "trailing_word (pre @ a) = a"
    using trailing_word_append [of a pre] p by simp
  have "butlast (pre @ a @ [0x2E]) = pre @ a" by (simp add: butlast_append)
  then show ?L using 1 2 p(3) by (simp add: member_access_def)
qed

lemma dotMatch_eq: "dotMatch s = member_access s"
proof (cases "member_access s")
  case None
  have "dotMatch s = None"
  proof (rule ccontr)
    assume "dotMatch s \<noteq> None"
    then obtain a b where "dotMatch s = Some (a, b)" by auto
    then have "member_access s = Some (a, b)" by (simp only: dotMatch_iff member_access_iff)
    with None show False by simp
  qed
  with None show ?thesis by simp
next
  case (Some ab)
  obtain a b where ab: "ab = (a, b)" by (cases ab)
  with Some have "dotMatch s = Some (a, b)" by (simp only: dotMatch_iff member_access_iff)
  with Some ab show ?thesis by simp
qed

lemma callMatch_eq:
  "callMatch s = (case member_access s of Some (a, b) \<Rightarrow> if b \<noteq> [] then Some (a, b) else None
                  | None \<Rightarrow> None)"
proof -
  have iff: "callMatch s = Some (a, b) \<longleftrightarrow> member_access s = Some (a, b) \<and> b \<noteq> []" for a b
    unfolding callMatch_iff member_access_iff by blast
  show ?thesis
  proof (cases "callMatch s")
    case None
    have "\<not> (member_access s = Some (a, b) \<and> b \<noteq> [])" for a b
      using iff [of a b] None by simp
    then show ?thesis using None by (auto split: option.splits)
  next
    case (Some ab)
    obtain a b where ab: "ab = (a, b)" by (cases ab)
    with Some iff [of a b] show ?thesis by simp
  qed
qed

lemma trailing_word_iff:
  "trailing_word s = w \<and> w \<noteq> [] \<longleftrightarrow>
     (\<exists>pre. s = pre @ w \<and> word_start pre \<and> w \<noteq> [] \<and> list_all is_word w)"
  using trailing_word_decomp [of s] trailing_word_append(1) by metis

lemma word_run_inner_Some:
  "plus_cap is_word (\<lambda>g1. eol (accept g1)) s = Some w \<longleftrightarrow> s = w \<and> w \<noteq> [] \<and> list_all is_word w"
  by (auto simp: word_run_inner)

lemma builtinMatch_iff:
  "builtinMatch s = Some w \<longleftrightarrow>
     (\<exists>pre. s = pre @ w \<and> word_start pre \<and> w \<noteq> [] \<and> list_all is_word w)"
  (is "?L \<longleftrightarrow> ?R")
proof
  assume ?L
  then have "search (\<lambda>prev. word_boundary prev (plus_cap is_word (\<lambda>g1. eol (accept g1)))) None s = Some w"
    by (simp add: builtinMatch_def)
  from search_Some [OF this] obtain pre s' where
    p: "s = pre @ s'" "word_boundary (prev_of None pre) (plus_cap is_word (\<lambda>g1. eol (accept g1))) s' = Some w"
    by blast
  from p(2) have i: "s' = w" "w \<noteq> []" "list_all is_word w"
    and w: "wordp (prev_of None pre) \<noteq> (s' \<noteq> [] \<and> is_word (hd s'))"
    by (auto simp: word_boundary_eq word_run_inner split: if_splits)
  from i have "is_word (hd s')" by (cases w) auto
  with w i have "word_start pre" by (auto simp: wordp_prev_of)
  with p(1) i show ?R by blast
next
  assume ?R
  then obtain pre where p: "s = pre @ w" "word_start pre" "w \<noteq> []" "list_all is_word w"
    by blast
  let ?m = "\<lambda>prev. word_boundary prev (plus_cap is_word (\<lambda>g1. eol (accept g1)))"
  have skip: "?m (prev_of None p1) (p2 @ w) = None" if "pre = p1 @ p2" "p2 \<noteq> []" for p1 p2
  proof -
    have "\<not> is_word (last p2)" using p(2) that by (simp add: word_start_def)
    then have "\<not> list_all is_word (p2 @ w)" using that(2) by (auto simp: list_all_iff)
    then have "plus_cap is_word (\<lambda>g1. eol (accept g1)) (p2 @ w) = None"
      by (subst word_run_inner) simp
    then show ?thesis by (simp only: word_boundary_eq if_cancel)
  qed
  have hit: "?m (prev_of None pre) w = Some w"
  proof -
    have "is_word (hd w)" using p(3,4) by (cases w) auto
    then show ?thesis using p by (simp add: word_boundary_eq wordp_prev_of word_run_inner)
  qed
  have "search ?m None (pre @ w) = search ?m (prev_of None pre) w"
    by (rule search_skip) (use skip in auto)
  also have "\<dots> = Some w" using hit by (rule search_hit)
  finally show ?L using p(1) by (simp add: builtinMatch_def)
qed

lemma modMatch_iff:
  "modMatch s = Some w \<longleftrightarrow>
     (\<exists>pre. s = pre @ w \<and> word_start pre \<and> w \<noteq> [] \<and> list_all is_word w)"
  (is "?L \<longleftrightarrow> ?R")
proof
  assume ?L
  then have "search (\<lambda>prev. plus_cap is_word (\<lambda>g1. eol (accept g1))) None s = Some w"
    by (simp add: modMatch_def)
  from search_Some [OF this] obtain pre s' where
    p: "s = pre @ s'" "plus_cap is_word (\<lambda>g1. eol (accept g1)) s' = Some w"
     "\<forall>p1 p2. pre = p1 @ p2 \<and> p2 \<noteq> [] \<longrightarrow> plus_cap is_word (\<lambda>g1. eol (accept g1)) (p2 @ s') = None"
    by blast
  from p(2) have i: "s' = w" "w \<noteq> []" "list_all is_word w"
    by (auto simp: word_run_inner split: if_splits)
  have "word_start pre"
  proof (rule ccontr)
    assume "\<not> word_start pre"
    then have ne: "pre \<noteq> []" and lw: "is_word (last pre)" by (auto simp: word_start_def)
    then have "pre = butlast pre @ [last pre]" by simp
    with p(3) have "plus_cap is_word (\<lambda>g1. eol (accept g1)) ([last pre] @ s') = None"
      by blast
    moreover have "plus_cap is_word (\<lambda>g1. eol (accept g1)) ([last pre] @ s') = Some ([last pre] @ s')"
      using lw i by (subst word_run_inner) simp
    ultimately show False by simp
  qed
  with p(1) i show ?R by blast
next
  assume ?R
  then obtain pre where p: "s = pre @ w" "word_start pre" "w \<noteq> []" "list_all is_word w"
    by blast
  let ?m = "\<lambda>prev::jschar option. plus_cap is_word (\<lambda>g1. eol (accept g1))"
  have skip: "?m (prev_of None p1) (p2 @ w) = None" if "pre = p1 @ p2" "p2 \<noteq> []" for p1 p2
  proof -
    have "\<not> is_word (last p2)" using p(2) that by (simp add: word_start_def)
    then have "\<not> list_all is_word (p2 @ w)" using that(2) by (auto simp: list_all_iff)
    then show ?thesis by (subst word_run_inner) simp
  qed
  have hit: "?m (prev_of None pre) w = Some w"
    using p by (simp add: word_run_inner)
  have "search ?m None (pre @ w) = search ?m (prev_of None pre) w"
    by (rule search_skip) (use skip in auto)
  also have "\<dots> = Some w" using hit by (rule search_hit)
  finally show ?L using p(1) by (simp add: modMatch_def)
qed

lemma word_match_eq:
  assumes "\<And>w. f s = Some w \<longleftrightarrow>
     (\<exists>pre. s = pre @ w \<and> word_start pre \<and> w \<noteq> [] \<and> list_all is_word w)"
  shows "f s = (if trailing_word s = [] then None else Some (trailing_word s))"
proof (cases "f s")
  case None
  have "trailing_word s = []"
  proof (rule ccontr)
    assume "trailing_word s \<noteq> []"
    then have "f s = Some (trailing_word s)" using assms trailing_word_iff by blast
    with None show False by simp
  qed
  with None show ?thesis by simp
next
  case (Some w)
  then have "trailing_word s = w \<and> w \<noteq> []" using assms trailing_word_iff by blast
  with Some show ?thesis by simp
qed

lemma builtinMatch_eq:
  "builtinMatch s = (if trailing_word s = [] then None else Some (trailing_word s))"
  by (rule word_match_eq) (rule builtinMatch_iff)

lemma modMatch_eq:
  "modMatch s = (if trailing_word s = [] then None else Some (trailing_word s))"
  by (rule word_match_eq) (rule modMatch_iff)

subsection \<open>The walk back from the cursor\<close>

lemma depth_behind_step:
  assumes "Suc i < length s"
  shows "depth_behind s i = depth_behind s (Suc i) +
     (if s ! Suc i = of_char CHR '')'' then 1 else if s ! Suc i = of_char CHR ''('' then - 1 else 0)"
proof -
  have "drop (Suc i) s = s ! Suc i # drop (Suc (Suc i)) s"
    using assms by (simp add: Cons_nth_drop_Suc)
  then show ?thesis by (simp add: depth_behind_def)
qed

lemma depth_behind_last: "Suc i = length s \<Longrightarrow> depth_behind s i = 0"
  by (simp add: depth_behind_def)

lemma last_open_below_less: "last_open_below s i = Some p \<Longrightarrow> p < i"
  by (induction i) (auto split: if_splits simp: less_Suc_eq)

lemma commas_in_Suc:
  "a \<le> i \<Longrightarrow> commas_in s a (Suc i) =
     commas_in s a i + (if s ! i = of_char CHR '','' \<and> depth_behind s i = 0 then 1 else 0)"
  by (simp add: commas_in_def)

lemma commas_in_empty [simp]: "commas_in s a a = 0"
  by (simp add: commas_in_def)

lemma scan_back_spec:
  assumes "i \<le> length s"
    and "i < length s \<Longrightarrow> int d = depth_behind s i +
       (if s ! i = of_char CHR '')'' then 1 else if s ! i = of_char CHR ''('' then - 1 else 0)"
    and "i = length s \<Longrightarrow> d = 0"
  shows "scan_back s i d cc =
     (case last_open_below s i of
        None \<Rightarrow> (- 1, cc + commas_in s 0 i)
      | Some p \<Rightarrow> (int p, cc + commas_in s (Suc p) i))"
  using assms
proof (induction i arbitrary: d cc)
  case 0
  then show ?case by simp
next
  case (Suc i)
  have d: "int d = depth_behind s i"
  proof (cases "Suc i = length s")
    case True
    then show ?thesis using Suc.prems(3) by (simp add: depth_behind_last)
  next
    case False
    then have "Suc i < length s" using Suc.prems(1) by simp
    then show ?thesis using Suc.prems(2) depth_behind_step [of i s] by simp
  qed
  have il: "i < length s" "i \<le> length s" using Suc.prems(1) by simp_all
  have comma_ne: "(of_char CHR '','' :: jschar) \<noteq> of_char CHR '')''"
    "(of_char CHR '','' :: jschar) \<noteq> of_char CHR ''(''"
    "(of_char CHR '')'' :: jschar) \<noteq> of_char CHR ''(''" by simp_all
  consider (close) "s ! i = of_char CHR '')''"
    | (open0) "s ! i = of_char CHR ''(''" "d = 0"
    | (open1) "s ! i = of_char CHR ''(''" "d \<noteq> 0"
    | (comma0) "s ! i = of_char CHR '',''" "d = 0"
    | (other) "s ! i \<noteq> of_char CHR '')''" "s ! i \<noteq> of_char CHR ''(''"
        "\<not> (s ! i = of_char CHR '','' \<and> d = 0)"
    by blast
  then show ?case
  proof cases
    case close
    have "scan_back s i (d + 1) cc =
      (case last_open_below s i of None \<Rightarrow> (- 1, cc + commas_in s 0 i)
       | Some p \<Rightarrow> (int p, cc + commas_in s (Suc p) i))"
      by (rule Suc.IH) (use il d close in auto)
    then show ?thesis using close il comma_ne
      by (auto simp: commas_in_Suc split: option.splits dest: last_open_below_less)
  next
    case open0
    then show ?thesis using d comma_ne by simp
  next
    case open1
    have "scan_back s i (d - 1) cc =
      (case last_open_below s i of None \<Rightarrow> (- 1, cc + commas_in s 0 i)
       | Some p \<Rightarrow> (int p, cc + commas_in s (Suc p) i))"
      by (rule Suc.IH) (use il d open1 comma_ne in auto)
    then show ?thesis using open1 il comma_ne d
      by (auto simp: commas_in_Suc split: option.splits dest: last_open_below_less)
  next
    case comma0
    have "scan_back s i d (cc + 1) =
      (case last_open_below s i of None \<Rightarrow> (- 1, cc + 1 + commas_in s 0 i)
       | Some p \<Rightarrow> (int p, cc + 1 + commas_in s (Suc p) i))"
      by (rule Suc.IH) (use il d comma0 comma_ne in auto)
    then show ?thesis using comma0 il comma_ne d
      by (auto simp: commas_in_Suc split: option.splits dest: last_open_below_less)
  next
    case other
    have "scan_back s i d cc =
      (case last_open_below s i of None \<Rightarrow> (- 1, cc + commas_in s 0 i)
       | Some p \<Rightarrow> (int p, cc + commas_in s (Suc p) i))"
      by (rule Suc.IH) (use il d other in auto)
    then show ?thesis using other il d
      by (auto simp: commas_in_Suc split: option.splits dest: last_open_below_less)
  qed
qed

lemma scan_back_unmatched_open:
  "scan_back s (length s) 0 0 =
     (case unmatched_open s of
        None \<Rightarrow> (- 1, commas_in s 0 (length s))
      | Some p \<Rightarrow> (int p, active_commas s p))"
  using scan_back_spec [of "length s" s 0 0]
  by (simp add: unmatched_open_def active_commas_def split: option.splits)

lemma last_open_below_Some_iff:
  "last_open_below s i = Some p \<longleftrightarrow>
     p < i \<and> s ! p = of_char CHR ''('' \<and> depth_behind s p = 0 \<and>
     (\<forall>q. p < q \<and> q < i \<longrightarrow> \<not> (s ! q = of_char CHR ''('' \<and> depth_behind s q = 0))"
proof (induction i)
  case 0
  then show ?case by simp
next
  case (Suc i)
  show ?case
  proof (cases "s ! i = of_char CHR ''('' \<and> depth_behind s i = 0")
    case True
    then show ?thesis
      by (auto simp: less_Suc_eq)
  next
    case False
    then show ?thesis using Suc
      by (auto simp: less_Suc_eq)
  qed
qed

lemma last_open_below_None_iff:
  "last_open_below s i = None \<longleftrightarrow>
     (\<forall>q < i. \<not> (s ! q = of_char CHR ''('' \<and> depth_behind s q = 0))"
  by (induction i) (auto simp: less_Suc_eq)

lemma unmatched_open_Some_iff:
  "unmatched_open s = Some p \<longleftrightarrow>
     p < length s \<and> s ! p = of_char CHR ''('' \<and> depth_behind s p = 0 \<and>
     (\<forall>q. p < q \<and> q < length s \<longrightarrow> \<not> (s ! q = of_char CHR ''('' \<and> depth_behind s q = 0))"
  unfolding unmatched_open_def by (rule last_open_below_Some_iff)

lemma unmatched_open_None_iff:
  "unmatched_open s = None \<longleftrightarrow>
     (\<forall>q < length s. \<not> (s ! q = of_char CHR ''('' \<and> depth_behind s q = 0))"
  unfolding unmatched_open_def by (rule last_open_below_None_iff)

text \<open>Behind the parenthesis that is found, no closing parenthesis lacks its partner:
  the text from there to the cursor is balanced.\<close>

lemma unmatched_open_balanced:
  assumes "unmatched_open s = Some p" and "p \<le> q" and "q < length s"
  shows "0 \<le> depth_behind s q"
  using assms(2,3)
proof (induction "length s - q" arbitrary: q rule: less_induct)
  case less
  show ?case
  proof (cases "Suc q = length s")
    case True
    then show ?thesis by (simp add: depth_behind_last)
  next
    case False
    then have sq: "Suc q < length s" using less.prems by simp
    have ih: "0 \<le> depth_behind s (Suc q)"
      by (rule less.hyps) (use sq less.prems in auto)
    show ?thesis
    proof (cases "depth_behind s (Suc q) = 0 \<and> s ! Suc q = of_char CHR ''(''")
      case True
      with assms(1) sq less.prems show ?thesis
        by (auto simp: unmatched_open_Some_iff)
    next
      case False
      then show ?thesis using ih depth_behind_step [OF sq] by (auto split: if_splits)
    qed
  qed
qed

text \<open>The parenthesis that is found is the one that is open with a balanced text
  behind it, in the usual sense of reading that text from left to right.\<close>

lemma excess_simps [simp]:
  "excess [] = 0"
  "excess (c # cs) = excess cs +
     (if c = of_char CHR '')'' then 1 else if c = of_char CHR ''('' then - 1 else 0)"
  by (simp_all add: excess_def)

lemma excess_append: "excess (a @ b) = excess a + excess b"
  by (induction a) auto

lemma depth_behind_excess: "depth_behind s j = excess (drop (Suc j) s)"
  by (simp add: depth_behind_def excess_def)

lemma all_le_Suc: "(\<forall>i \<le> Suc n. P i) \<longleftrightarrow> P 0 \<and> (\<forall>j \<le> n. P (Suc j))"
  by (metis Suc_le_mono le0 not0_implies_Suc)

lemma balanced_from_iff:
  "balanced_from d t \<longleftrightarrow> (\<forall>i \<le> length t. excess (take i t) \<le> int d) \<and> excess t = int d"
proof (induction t arbitrary: d)
  case Nil
  then show ?case by auto
next
  case (Cons c cs)
  show ?case
  proof (cases "c = of_char CHR ''(''")
    case True
    then show ?thesis using Cons [of "Suc d"] by (simp add: all_le_Suc) (auto; force)
  next
    case False
    note no = this
    show ?thesis
    proof (cases "c = of_char CHR '')''")
      case True
      show ?thesis
      proof (cases d)
        case 0
        have "\<not> (\<forall>i \<le> length (c # cs). excess (take i (c # cs)) \<le> int d)"
          using True 0 by (auto intro!: exI [of _ 1])
        then show ?thesis using True 0 no by simp
      next
        case (Suc d')
        then show ?thesis using True no Cons [of d'] by (simp add: all_le_Suc)
      qed
    next
      case False
      then show ?thesis using no Cons [of d] by (simp add: all_le_Suc)
    qed
  qed
qed

lemma excess_take_drop: "excess (take i t) + excess (drop i t) = excess t"
  using excess_append [of "take i t" "drop i t"] by simp

lemma balanced_iff_suffixes:
  "balanced t \<longleftrightarrow> (\<forall>i \<le> length t. 0 \<le> excess (drop i t)) \<and> excess t = 0"
proof -
  have "excess t = 0 \<Longrightarrow> (excess (take i t) \<le> 0) = (0 \<le> excess (drop i t))" for i
    using excess_take_drop [of i t] by auto
  then show ?thesis unfolding balanced_def balanced_from_iff by auto
qed

lemma unmatched_open_iff_balanced:
  "unmatched_open s = Some p \<longleftrightarrow>
     p < length s \<and> s ! p = of_char CHR ''('' \<and> balanced (drop (Suc p) s)"
  (is "?L \<longleftrightarrow> ?R")
proof
  assume l: ?L
  then have p: "p < length s" "s ! p = of_char CHR ''(''" "depth_behind s p = 0"
    by (simp_all add: unmatched_open_Some_iff)
  have "0 \<le> excess (drop i (drop (Suc p) s))" for i
  proof (cases "p + i < length s")
    case True
    then show ?thesis
      using unmatched_open_balanced [OF l, of "p + i"]
      by (simp add: depth_behind_excess add.commute)
  next
    case False
    then show ?thesis by simp
  qed
  then have "balanced (drop (Suc p) s)"
    using p(3) by (simp add: balanced_iff_suffixes depth_behind_excess)
  with p show ?R by simp
next
  assume r: ?R
  then have p: "p < length s" "s ! p = of_char CHR ''(''" by simp_all
  from r have b: "\<forall>i \<le> length (drop (Suc p) s). 0 \<le> excess (drop i (drop (Suc p) s))"
    and z: "excess (drop (Suc p) s) = 0"
    using balanced_iff_suffixes [of "drop (Suc p) s"] by blast+
  have s: "0 \<le> excess (drop i (drop (Suc p) s))" for i
  proof (cases "i \<le> length (drop (Suc p) s)")
    case True
    with b show ?thesis by blast
  next
    case False
    then have "drop i (drop (Suc p) s) = []" by simp
    then show ?thesis by (simp only: excess_simps)
  qed
  have nn: "0 \<le> depth_behind s q" if "p \<le> q" for q
    using s [of "q - p"] that by (simp add: depth_behind_excess)
  have "\<not> (s ! q = of_char CHR ''('' \<and> depth_behind s q = 0)" if pq: "p < q" and ql: "q < length s" for q
  proof
    assume a: "s ! q = of_char CHR ''('' \<and> depth_behind s q = 0"
    obtain q' where q': "q = Suc q'" "p \<le> q'" using pq by (cases q) simp_all
    have "depth_behind s q' = depth_behind s (Suc q') - 1"
      using depth_behind_step [of q' s] ql q' a by simp
    then show False using nn [OF q'(2)] a q' by simp
  qed
  then show ?L using p z by (simp add: unmatched_open_Some_iff depth_behind_excess)
qed

subsection \<open>The three parts of the hover provider\<close>

lemma substring_0: "substring s 0 n = take n s"
  by (simp add: substring_def)

lemma char_at_Some_less: "char_at s i = Some c \<Longrightarrow> i < length s"
  by (simp add: char_at_def split: if_splits)

lemma hover_after_dot_eq:
  "hover_after_dot ms lineText word start =
     (if start > 0 \<and> char_at lineText (start - 1) = Some (of_char CHR ''.'')
         \<and> trailing_word (take (start - 1) lineText) \<noteq> []
       then (case get ms (trailing_word (take (start - 1) lineText)) of
               Some mdl \<Rightarrow> map_option (method_hover mdl)
                             (find_first (\<lambda>m. MethodInfo.name m = word) (methods mdl))
             | None \<Rightarrow> None)
       else None)"
  by (simp add: hover_after_dot_def modMatch_eq substring_0 Let_def split: option.splits)

lemma hover_before_dot_eq:
  "hover_before_dot ms lineText word behind =
     (if char_at lineText behind = Some (of_char CHR ''.'')
      then map_option module_dot_hover (get ms word) else None)"
  by (auto simp: hover_before_dot_def split: option.splits dest: char_at_Some_less)

lemma hover_standalone_eq:
  "hover_standalone ms word =
     first_match
      [map_option module_hover (get ms word),
       map_option builtin_hover (find_first (\<lambda>b. BuiltinInfo.name b = word) BUILTINS),
       if word \<in> set KEYWORDS then Some (keyword_hover word) else None,
       map_option constant_hover (find_first (\<lambda>c. ConstantInfo.name c = word) CONSTANTS)]"
  by (simp add: hover_standalone_def split: option.splits)

lemma first_match_Cons:
  "first_match (x # xs) = (case x of Some y \<Rightarrow> Some y | None \<Rightarrow> first_match xs)"
  by (cases x) simp_all

text \<open>What the provider computes: the lookups in their order, each one reached when
  those before it found nothing, whatever stands next to the word.\<close>

lemma hover_resolution:
  "provideHover ms lineText wordRange =
     (case wordRange of
        None \<Rightarrow> None
      | Some r \<Rightarrow> map_option (\<lambda>md. \<lparr>contents = md, range = r\<rparr>)
                    (first_match (hover_lookups ms lineText r)))"
proof (cases wordRange)
  case None
  then show ?thesis by (simp add: provideHover_def)
next
  case (Some r)
  obtain charBefore charAfter where r: "r = (charBefore, charAfter)" by (cases r)
  let ?word = "substring lineText charBefore charAfter"
  have "first_match (hover_lookups ms lineText r) =
     (case hover_after_dot ms lineText ?word charBefore of Some md \<Rightarrow> Some md
      | None \<Rightarrow> (case hover_before_dot ms lineText ?word charAfter of Some md \<Rightarrow> Some md
      | None \<Rightarrow> hover_standalone ms ?word))"
    unfolding hover_lookups_def r Let_def fst_conv snd_conv
    by (subst first_match_Cons, subst first_match_Cons)
       (simp only: hover_after_dot_eq hover_before_dot_eq hover_standalone_eq)
  then show ?thesis unfolding Some r
    by (simp add: provideHover_def Let_def split: option.splits)
qed

subsection \<open>Completion items\<close>

lemma dotMatch_shape:
  assumes "s = pre @ ident @ js ''.'' @ partial"
    and "pre = [] \<or> \<not> is_word (last pre)" and "ident \<noteq> []"
    and "list_all is_word ident" and "list_all is_word partial"
  shows "dotMatch s = Some (ident, partial)"
proof -
  have "s = pre @ ident @ 0x2E # partial" using assms(1) by (simp add: js_def)
  then show ?thesis using assms(2-5) dotMatch_iff [of s ident partial]
    by (auto simp: word_start_def)
qed

lemma snippet_of_eq:
  "snippet_of method =
     MethodInfo.name method @ js ''('' @
     join (js '', '')
       (map (\<lambda>j. js ''${'' @ number_to_string (j + 1) @ js '':'' @ params method ! j @ js ''}'')
            [0..<length (params method)]) @ js '')''"
proof -
  have "map (\<lambda>(i, p). js ''${'' @ number_to_string (i + 1) @ js '':'' @ p @ js ''}'')
            (List.enumerate 0 (params method)) =
        map (\<lambda>j. js ''${'' @ number_to_string (j + 1) @ js '':'' @ params method ! j @ js ''}'')
            [0..<length (params method)]"
    by (rule nth_equalityI) (simp_all add: nth_enumerate_eq)
  then show ?thesis by (simp add: snippet_of_def Let_def js_def)
qed

lemma top_level_items_no_methods:
  "top_level_items ms \<noteq> map (method_item a) xs"
proof
  assume e: "top_level_items ms = map (method_item a) xs"
  have "keyword_item (js ''def'') \<in> set (top_level_items ms)"
    by (simp add: top_level_items_def KEYWORDS_def)
  with e obtain x where "keyword_item (js ''def'') = method_item a x" by auto
  then have "kind (keyword_item (js ''def'')) = kind (method_item a x)" by simp
  then show False by (simp add: keyword_item_def method_item_def)
qed

subsection \<open>The example index\<close>

lemma example_lines_parsed: "parse_lines example_lines = (example_index, Some (js ''vehicle''))"
  by code_simp

lemma hover_resolution_example:
  "provideHover example_index (js ''x = vehicle.Honk()'') (Some (4, 11)) =
     Some \<lparr>contents = [Markdown (js ''**vehicle** '' @ em_dash @ js '' The car'' @ [0x0A, 0x0A]),
                        Markdown (js ''2 methods''),
                        Markdown (js '' | Types: HitInfo'')],
           range = (4, 11)\<rparr> \<and>
   provideHover example_index (js ''x = unknown_name'') (Some (4, 16)) = None"
proof -
  have a: "map_option (\<lambda>md. \<lparr>contents = md, range = (4, 11)\<rparr>)
             (first_match (hover_lookups example_index (js ''x = vehicle.Honk()'') (4, 11))) =
     Some \<lparr>contents = [Markdown (js ''**vehicle** '' @ em_dash @ js '' The car'' @ [0x0A, 0x0A]),
                        Markdown (js ''2 methods''),
                        Markdown (js '' | Types: HitInfo'')],
           range = (4, 11)\<rparr>"
    by code_simp
  have b: "map_option (\<lambda>md. \<lparr>contents = md, range = (4, 16)\<rparr>)
             (first_match (hover_lookups example_index (js ''x = unknown_name'') (4, 16))) = None"
    by code_simp
  show ?thesis
    using a b hover_resolution [of example_index "js ''x = vehicle.Honk()''" "Some (4, 11)"]
      hover_resolution [of example_index "js ''x = unknown_name''" "Some (4, 16)"]
    by simp
qed

subsection \<open>What a successful match consists of\<close>

lemma star_Some: "star P k s = Some r \<Longrightarrow> \<exists>t. k t = Some r"
  by (induction s) (auto split: if_splits option.splits)

lemma star_cap_Some: "star_cap P acc k s = Some r \<Longrightarrow> \<exists>g t. length acc \<le> length g \<and> k g t = Some r"
proof (induction s arbitrary: acc)
  case Nil
  then show ?case by auto
next
  case (Cons c cs)
  show ?case
  proof (cases "P c \<and> star_cap P (acc @ [c]) k cs \<noteq> None")
    case True
    with Cons.prems have "star_cap P (acc @ [c]) k cs = Some r" by (auto split: option.splits)
    from Cons.IH [OF this] obtain g t where "length (acc @ [c]) \<le> length g" "k g t = Some r"
      by blast
    then have "length acc \<le> length g \<and> k g t = Some r" by simp
    then show ?thesis by blast
  next
    case False
    with Cons.prems have "k acc (c # cs) = Some r" by (auto split: option.splits if_splits)
    then show ?thesis by blast
  qed
qed

lemma plus_cap_Some: "plus_cap P k s = Some r \<Longrightarrow> \<exists>g t. g \<noteq> [] \<and> k g t = Some r"
proof (cases s)
  case Nil
  assume "plus_cap P k s = Some r"
  with Nil show ?thesis by simp
next
  case (Cons c cs)
  assume "plus_cap P k s = Some r"
  with Cons have "star_cap P [c] k cs = Some r" by (auto split: if_splits)
  from star_cap_Some [OF this] obtain g t where "length [c] \<le> length g" "k g t = Some r"
    by blast
  then have "g \<noteq> [] \<and> k g t = Some r" by auto
  then show ?thesis by blast
qed

lemma methodMatch_return_nonempty:
  assumes "methodMatch s = Some (mname, g2, Some r)"
  shows "r \<noteq> []"
proof -
  let ?arrow = "\<lambda>k. star is_space (lit ''->'' (star is_space (plus_cap is_word k)))"
  from assms obtain x where
    "lit ''.'' (plus_cap is_word (\<lambda>g1.
       lit ''('' (star_cap not_rparen [] (\<lambda>g2. lit '')''
         (opt_cap ?arrow (\<lambda>g3. accept (g1, g2, g3))))))) x = Some (mname, g2, Some r)"
    by (auto simp: methodMatch_marker split: option.splits)
  then obtain t1 where "plus_cap is_word (\<lambda>g1.
       lit ''('' (star_cap not_rparen [] (\<lambda>g2. lit '')''
         (opt_cap ?arrow (\<lambda>g3. accept (g1, g2, g3)))))) t1 = Some (mname, g2, Some r)"
    by (auto simp: one_Some)
  from plus_cap_Some [OF this] obtain a1 t2 where
    "lit ''('' (star_cap not_rparen [] (\<lambda>g2. lit '')''
         (opt_cap ?arrow (\<lambda>g3. accept (a1, g2, g3))))) t2 = Some (mname, g2, Some r)"
    by blast
  then obtain t3 where "star_cap not_rparen [] (\<lambda>g2. lit '')''
         (opt_cap ?arrow (\<lambda>g3. accept (a1, g2, g3)))) t3 = Some (mname, g2, Some r)"
    by (auto simp: one_Some)
  from star_cap_Some [OF this] obtain a2 t4 where
    "lit '')'' (opt_cap ?arrow (\<lambda>g3. accept (a1, a2, g3))) t4 = Some (mname, g2, Some r)"
    by blast
  then obtain t5 where o: "opt_cap ?arrow (\<lambda>g3. accept (a1, a2, g3)) t5 = Some (mname, g2, Some r)"
    by (auto simp: one_Some)
  have "?arrow (\<lambda>g. accept (a1, a2, Some g)) t5 = Some (mname, g2, Some r)"
    using o by (auto simp: opt_cap_def accept_def split: option.splits)
  from star_Some [OF this] obtain t6 where
    "lit ''->'' (star is_space (plus_cap is_word (\<lambda>g. accept (a1, a2, Some g)))) t6 = Some (mname, g2, Some r)"
    by blast
  then obtain t7 where
    "star is_space (plus_cap is_word (\<lambda>g. accept (a1, a2, Some g))) t7 = Some (mname, g2, Some r)"
    by (auto simp: one_Some)
  from star_Some [OF this] obtain t8 where
    "plus_cap is_word (\<lambda>g. accept (a1, a2, Some g)) t8 = Some (mname, g2, Some r)"
    by blast
  from plus_cap_Some [OF this] show ?thesis by (auto simp: accept_def)
qed

lemma parseLine_method:
  assumes "methodMatch (trim line) = Some (mname, g2, g3)"
  shows "parseLine (ms, Some cur) line =
     (AList.map_entry cur (\<lambda>m. m\<lparr>methods := methods m @
        [\<lparr>MethodInfo.name = mname,
          params = (if trim g2 = [] then [] else split sep_comma_ws0 (trim g2)),
          returnType = (case g3 of Some r \<Rightarrow> r | None \<Rightarrow> js ''void''),
          raw = strip_marker (trim line)\<rparr>]\<rparr>) ms, Some cur)"
proof -
  have d: "descMatch (trim line) = None" using assms by (rule methodMatch_not_desc)
  have r: "(case g3 of Some r \<Rightarrow> (if r = [] then js ''void'' else r) | None \<Rightarrow> js ''void'')
         = (case g3 of Some r \<Rightarrow> r | None \<Rightarrow> js ''void'')"
    using assms methodMatch_return_nonempty by (cases g3) auto
  show ?thesis using assms d r by (simp add: parseLine_def Let_def)
qed

lemma parseLine_types:
  assumes "typesMatch (trim line) = Some g1"
  shows "parseLine (ms, Some cur) line =
     (AList.map_entry cur (\<lambda>m. m\<lparr>types := types m @ map trim (split sep_comma_ws1 g1)\<rparr>) ms,
      Some cur)"
  using assms typesMatch_not_desc [OF assms] typesMatch_not_method [OF assms]
  by (simp add: parseLine_def Let_def)

subsection \<open>Splitting at commas\<close>

lemma star_total:
  assumes "\<And>t. k t \<noteq> None"
  shows "star P k s = k (dropWhile P s)"
proof (induction s)
  case Nil
  show ?case by simp
next
  case (Cons c cs)
  then show ?case using assms [of "dropWhile P cs"] by (auto split: option.splits)
qed

lemma length_dropWhile_takeWhile:
  "length cs - length (dropWhile P cs) = length (takeWhile P cs)"
proof -
  have "length (takeWhile P cs) + length (dropWhile P cs) = length cs"
    by (simp only: length_append [symmetric] takeWhile_dropWhile_id)
  then show ?thesis by simp
qed

lemma star_match_len:
  "star is_space (match_len (pre @ cs)) cs = Some (length pre + length (takeWhile is_space cs))"
proof -
  have "star is_space (match_len (pre @ cs)) cs = match_len (pre @ cs) (dropWhile is_space cs)"
    by (rule star_total) (simp add: match_len_def)
  also have "\<dots> = Some (length pre + length (takeWhile is_space cs))"
    using length_dropWhile_le [of is_space cs] length_dropWhile_takeWhile [of cs is_space]
    by (simp add: match_len_def)
  finally show ?thesis .
qed

lemma sep_comma_ws0_eq:
  "sep_comma_ws0 s = (case s of [] \<Rightarrow> None
     | c # cs \<Rightarrow> if c = of_char CHR '','' then Some (Suc (length (takeWhile is_space cs))) else None)"
proof (cases s)
  case Nil
  then show ?thesis by (simp add: sep_comma_ws0_def)
next
  case (Cons c cs)
  show ?thesis using Cons star_match_len [of "[c]" cs]
    by (auto simp: sep_comma_ws0_def is_char_def)
qed

lemma sep_comma_ws1_eq:
  "sep_comma_ws1 s = (case s of [] \<Rightarrow> None
     | c # cs \<Rightarrow> if c = of_char CHR '','' \<and> cs \<noteq> [] \<and> is_space (hd cs)
                then Some (Suc (length (takeWhile is_space cs))) else None)"
proof (cases s)
  case Nil
  then show ?thesis by (simp add: sep_comma_ws1_def)
next
  case (Cons c cs)
  show ?thesis
  proof (cases cs)
    case Nil
    then show ?thesis using Cons by (simp add: sep_comma_ws1_def plus_def)
  next
    case (Cons d ds)
    show ?thesis using Cons \<open>s = c # cs\<close> star_match_len [of "[c, d]" ds]
      by (auto simp: sep_comma_ws1_def plus_def is_char_def)
  qed
qed

lemma comma_not_space [simp]: "\<not> is_space 0x2C"
  by (simp add: is_space_def is_line_terminator_def)

lemma comma_pieces_nonempty [simp]: "comma_pieces s \<noteq> []"
  by (induction s) auto

lemma comma_space_pieces_nonempty [simp]: "comma_space_pieces s \<noteq> []"
  by (induction s) auto

lemma space_not_comma: "is_space c \<Longrightarrow> c \<noteq> of_char CHR '',''"
  using space_not_char(3) by (auto simp: is_char_def)

lemma comma_pieces_dropWhile:
  "hd (comma_pieces (dropWhile is_space s)) = trimStart (hd (comma_pieces s))
   \<and> tl (comma_pieces (dropWhile is_space s)) = tl (comma_pieces s)"
  by (induction s) (auto simp: trimStart_def space_not_comma)

lemma trim_space_Cons: "is_space x \<Longrightarrow> trim (x # y) = trim y"
  by (simp add: trim_def trimStart_def)

lemma comma_space_pieces_dropWhile:
  "trim (hd (comma_space_pieces (dropWhile is_space s))) = trim (hd (comma_space_pieces s))
   \<and> tl (comma_space_pieces (dropWhile is_space s)) = tl (comma_space_pieces s)"
  by (induction s) (auto simp: trim_space_Cons space_not_comma)

lemma split_loop_comma_ws0:
  "split_loop sep_comma_ws0 acc s =
     (acc @ hd (comma_pieces s)) # map trimStart (tl (comma_pieces s))"
proof (induction s arbitrary: acc rule: length_induct)
  case (1 s)
  show ?case
  proof (cases s)
    case Nil
    then show ?thesis by simp
  next
    case (Cons c cs)
    show ?thesis
    proof (cases "c = of_char CHR '',''")
      case True
      have l: "length (dropWhile is_space cs) < length s"
        using Cons length_dropWhile_le [of is_space cs] by simp
      have "split_loop sep_comma_ws0 acc s =
              acc # split_loop sep_comma_ws0 [] (dropWhile is_space cs)"
        using Cons True by (simp add: sep_comma_ws0_eq dropWhile_eq_drop)
      also have "split_loop sep_comma_ws0 [] (dropWhile is_space cs) =
          hd (comma_pieces (dropWhile is_space cs)) #
          map trimStart (tl (comma_pieces (dropWhile is_space cs)))"
        using 1 l by simp
      also have "\<dots> = map trimStart (comma_pieces cs)"
        using comma_pieces_dropWhile [of cs] by (cases "comma_pieces cs") auto
      finally show ?thesis using Cons True by simp
    next
      case False
      have "split_loop sep_comma_ws0 acc s = split_loop sep_comma_ws0 (acc @ [c]) cs"
        using Cons False by (simp add: sep_comma_ws0_eq)
      also have "\<dots> = ((acc @ [c]) @ hd (comma_pieces cs)) # map trimStart (tl (comma_pieces cs))"
        using 1 Cons by simp
      finally show ?thesis using Cons False by simp
    qed
  qed
qed

lemma split_comma_ws0:
  assumes "s \<noteq> []" "\<not> is_space (hd s)"
  shows "split sep_comma_ws0 s = map trimStart (comma_pieces s)"
proof -
  obtain c cs where s: "s = c # cs" using assms(1) by (cases s) auto
  have "trimStart (hd (comma_pieces s)) = hd (comma_pieces s)"
    using assms(2) s by (auto simp: trimStart_def)
  then have "map trimStart (comma_pieces s) = hd (comma_pieces s) # map trimStart (tl (comma_pieces s))"
    by (cases "comma_pieces s") auto
  then show ?thesis using assms(1) by (simp add: split_def split_loop_comma_ws0)
qed

lemma map_trim_split_loop_comma_ws1:
  "map trim (split_loop sep_comma_ws1 acc s) =
     trim (acc @ hd (comma_space_pieces s)) # map trim (tl (comma_space_pieces s))"
proof (induction s arbitrary: acc rule: length_induct)
  case (1 s)
  show ?case
  proof (cases s)
    case Nil
    then show ?thesis by simp
  next
    case (Cons c cs)
    show ?thesis
    proof (cases "c = of_char CHR '','' \<and> cs \<noteq> [] \<and> is_space (hd cs)")
      case True
      have l: "length (dropWhile is_space cs) < length s"
        using Cons length_dropWhile_le [of is_space cs] by simp
      have "split_loop sep_comma_ws1 acc s =
              acc # split_loop sep_comma_ws1 [] (dropWhile is_space cs)"
        using Cons True by (simp add: sep_comma_ws1_eq dropWhile_eq_drop)
      then have "map trim (split_loop sep_comma_ws1 acc s) =
              trim acc # map trim (split_loop sep_comma_ws1 [] (dropWhile is_space cs))"
        by simp
      also have "map trim (split_loop sep_comma_ws1 [] (dropWhile is_space cs)) =
          trim (hd (comma_space_pieces (dropWhile is_space cs))) #
          map trim (tl (comma_space_pieces (dropWhile is_space cs)))"
        using 1 l by simp
      also have "\<dots> = map trim (comma_space_pieces cs)"
        using comma_space_pieces_dropWhile [of cs] by (cases "comma_space_pieces cs") auto
      finally show ?thesis using Cons True by simp
    next
      case False
      have "split_loop sep_comma_ws1 acc s = split_loop sep_comma_ws1 (acc @ [c]) cs"
        using Cons False by (auto simp: sep_comma_ws1_eq)
      also have "map trim \<dots> =
         trim ((acc @ [c]) @ hd (comma_space_pieces cs)) # map trim (tl (comma_space_pieces cs))"
        using 1 Cons by simp
      finally show ?thesis using Cons False by auto
    qed
  qed
qed

lemma map_trim_split_comma_ws1:
  assumes "s \<noteq> []"
  shows "map trim (split sep_comma_ws1 s) = map trim (comma_space_pieces s)"
proof -
  have "map trim (comma_space_pieces s) =
     trim (hd (comma_space_pieces s)) # map trim (tl (comma_space_pieces s))"
    by (cases "comma_space_pieces s") auto
  then show ?thesis using assms by (simp add: split_def map_trim_split_loop_comma_ws1)
qed

subsection \<open>Method lines and types lines read while a module is current\<close>

lemma trimEnd_hd: "trimEnd x \<noteq> [] \<Longrightarrow> hd (trimEnd x) = hd x"
proof (induction x)
  case Nil
  then show ?case by (simp add: trimEnd_def)
next
  case (Cons a x)
  have "trimEnd (a # x) = (if trimEnd x = [] \<and> is_space a then [] else a # trimEnd x)"
    by (auto simp: trimEnd_def dropWhile_append split: if_splits)
  with Cons.prems show ?case by (auto split: if_splits)
qed

lemma trim_hd_not_space: "trim s \<noteq> [] \<Longrightarrow> \<not> is_space (hd (trim s))"
proof -
  assume a: "trim s \<noteq> []"
  have n: "dropWhile is_space s \<noteq> []"
  proof
    assume "dropWhile is_space s = []"
    then have "trimStart s = []" by (simp only: trimStart_def)
    then have "trim s = []" by (simp add: trim_def trimEnd_def)
    with a show False by simp
  qed
  have "hd (trim s) = hd (dropWhile is_space s)"
    using a trimEnd_hd [of "dropWhile is_space s"] by (simp add: trim_def trimStart_def)
  then show ?thesis using hd_dropWhile [OF n] by simp
qed

lemma method_line_attached:
  assumes "methodMatch (trim line) = Some (mname, g2, g3)" and "get ms cur = Some m"
  shows "snd (parseLine (ms, Some cur) line) = Some cur \<and>
     get (fst (parseLine (ms, Some cur) line)) cur =
       Some (m\<lparr>methods := methods m @
         [\<lparr>MethodInfo.name = mname,
           params = (if trim g2 = [] then [] else map trimStart (comma_pieces (trim g2))),
           returnType = (case g3 of Some r \<Rightarrow> r | None \<Rightarrow> js ''void''),
           raw = strip_marker (trim line)\<rparr>]\<rparr>)"
proof -
  have "trim g2 \<noteq> [] \<Longrightarrow> split sep_comma_ws0 (trim g2) = map trimStart (comma_pieces (trim g2))"
    by (rule split_comma_ws0) (simp_all add: trim_hd_not_space)
  then show ?thesis
    using assms(2) by (auto simp: parseLine_method [OF assms(1)] get_def map_of_map_entry)
qed

lemma typesMatch_nonempty:
  assumes "typesMatch s = Some g" shows "g \<noteq> []"
proof -
  from assms obtain x where
    "lit ''Type'' (opt_one (is_char CHR ''s'') (lit '':''
       (star is_space (plus_cap is_dot (\<lambda>g1. eol (accept g1)))))) x = Some g"
    by (auto simp: typesMatch_marker split: option.splits)
  then obtain t where
    "opt_one (is_char CHR ''s'') (lit '':''
       (star is_space (plus_cap is_dot (\<lambda>g1. eol (accept g1))))) t = Some g"
    by (auto simp: one_Some)
  from opt_one_Some [OF this] obtain t' where
    "lit '':'' (star is_space (plus_cap is_dot (\<lambda>g1. eol (accept g1)))) t' = Some g"
    by (auto simp: one_Some)
  then obtain t2 where "star is_space (plus_cap is_dot (\<lambda>g1. eol (accept g1))) t2 = Some g"
    by (auto simp: one_Some)
  from star_Some [OF this] obtain t3 where "plus_cap is_dot (\<lambda>g1. eol (accept g1)) t3 = Some g"
    by blast
  from plus_cap_Some [OF this] show ?thesis
    by (auto simp: eol_def accept_def split: if_splits)
qed

lemma types_line_appended:
  assumes "typesMatch (trim line) = Some g1" and "get ms cur = Some m"
  shows "snd (parseLine (ms, Some cur) line) = Some cur \<and>
     get (fst (parseLine (ms, Some cur) line)) cur =
       Some (m\<lparr>types := types m @ map trim (comma_space_pieces g1)\<rparr>)"
  using assms(2) typesMatch_nonempty [OF assms(1)]
  by (simp add: parseLine_types [OF assms(1)] get_def map_of_map_entry map_trim_split_comma_ws1)

lemma comma_space_pieces_all_followed:
  assumes "\<forall>i < length s. s ! i = of_char CHR '','' \<longrightarrow> Suc i < length s \<and> is_space (s ! Suc i)"
  shows "comma_space_pieces s = comma_pieces s"
  using assms
proof (induction s)
  case Nil
  show ?case by simp
next
  case (Cons c cs)
  have "\<forall>i < length cs. cs ! i = of_char CHR '','' \<longrightarrow> Suc i < length cs \<and> is_space (cs ! Suc i)"
    using Cons.prems by (metis Suc_less_eq length_Cons nth_Cons_Suc)
  then have ih: "comma_space_pieces cs = comma_pieces cs" by (rule Cons.IH)
  have "c = of_char CHR '','' \<Longrightarrow> cs \<noteq> [] \<and> is_space (hd cs)"
    using Cons.prems [rule_format, of 0] by (cases cs) auto
  then show ?case using ih by auto
qed

section \<open>The reference parser\<close>

subsection \<open>Method lines\<close>

text \<open>
  C1. A method line read while a module is current is attached to that module, with the
  word of the arrow clause as its return type and \<open>void\<close> when there is no arrow clause.
  Its parameters are the pieces of the trimmed text between the parentheses, cut at every
  comma, each piece without the white space at its start. White space at the end of a
  piece, that is before a comma, is not removed. In the reference file below the method
  line is \<open>.SetSpeed(v , mode) -> float\<close>: the first parameter that the parser records is
  \<open>v\<close> followed by a blank, where splitting on commas with white space trimmed gives
  \<open>v\<close>. The types line of the same parser trims every piece of its list.
\<close>

theorem method_line_space_before_comma:
  "parseText (js ''# vehicle - The car'' @ [0x0A] @ js ''#   .SetSpeed(v , mode) -> float'') =
     [(js ''vehicle'',
       \<lparr>ModuleInfo.name = js ''vehicle'', description = js ''The car'',
        methods = [\<lparr>MethodInfo.name = js ''SetSpeed'', params = [js ''v '', js ''mode''],
                    returnType = js ''float'', raw = js ''.SetSpeed(v , mode) -> float''\<rparr>],
        types = []\<rparr>)]"
  by code_simp

subsection \<open>Bare module names\<close>

text \<open>
  C2. A line that is not blank and does not start with the marker \<open>#\<close>, read in any state
  that the parser reaches, adds an entry with empty description, methods and types when
  the index has none under that name, leaves the index as it is otherwise, and leaves no
  current module. Marker lines that follow it and are no description lines are dropped:
  the state after them is the state after the bare name.
\<close>

theorem bare_module_name_line:
  assumes "trim line \<noteq> []" and "\<not> startsWith (trim line) (js ''#'')"
    and "\<forall>l \<in> set following. startsWith (trim l) (js ''#'') \<and> descMatch (trim l) = None"
  shows "parseLine (parse_lines before) line =
           ((if has (fst (parse_lines before)) (trim line) then fst (parse_lines before)
             else fst (parse_lines before) @ [(trim line, new_module (trim line) [])]), None)
       \<and> foldl parseLine (parseLine (parse_lines before) line) following =
           parseLine (parse_lines before) line"
proof -
  obtain ms cur where st: "parse_lines before = (ms, cur)" by (cases "parse_lines before")
  have ok: "current_ok (ms, cur)" using parse_lines_current_ok [of before] st by simp
  show ?thesis
    unfolding st using parseLine_bare [OF assms(1,2) ok] marker_lines_dropped [OF assms(3)]
    by simp
qed

theorem bare_module_name_line_witness:
  "parseLine (parse_lines example_lines) (js ''  wheel '') =
     (example_index @ [(js ''wheel'', new_module (js ''wheel'') [])], None) \<and>
   foldl parseLine (parseLine (parse_lines example_lines) (js ''  wheel ''))
     [js ''#   .Start(key)'', js ''#   Types: Rotor''] =
   parseLine (parse_lines example_lines) (js ''  wheel '')"
proof -
  have h1: "trim (js ''  wheel '') \<noteq> []" by code_simp
  have h2: "\<not> startsWith (trim (js ''  wheel '')) (js ''#'')" by code_simp
  have h3: "\<forall>l \<in> set [js ''#   .Start(key)'', js ''#   Types: Rotor''].
              startsWith (trim l) (js ''#'') \<and> descMatch (trim l) = None"
    by code_simp
  have e: "trim (js ''  wheel '') = js ''wheel''" by code_simp
  have n: "\<not> has example_index (js ''wheel'')" by code_simp
  note T = bare_module_name_line [OF h1 h2 h3, of example_lines]
  have A: "parseLine (parse_lines example_lines) (js ''  wheel '') =
     (example_index @ [(js ''wheel'', new_module (js ''wheel'') [])], None)"
    using T [THEN conjunct1] n by (simp add: e example_lines_parsed)
  show ?thesis using A T [THEN conjunct2] by (rule conjI)
qed

subsection \<open>Method and types lines without a current module\<close>

text \<open>
  C3. A line that matches the method pattern or the types pattern, read while there is no
  current module, changes nothing: the index and the (absent) current module are what
  they were before the line.
\<close>

theorem method_or_types_line_without_module:
  assumes "methodMatch (trim line) \<noteq> None \<or> typesMatch (trim line) \<noteq> None"
  shows "parseLine (ms, None) line = (ms, None)"
proof -
  from assms have "startsWith (trim line) (js ''#'') \<and> descMatch (trim line) = None"
    using methodMatch_startsWith typesMatch_startsWith methodMatch_not_desc typesMatch_not_desc
    by blast
  then show ?thesis by (simp add: parseLine_marker_no_module)
qed

theorem method_or_types_line_without_module_witness:
  "methodMatch (trim (js ''#   .Foo(a, b) -> float'')) =
     Some (js ''Foo'', js ''a, b'', Some (js ''float'')) \<and>
   parseLine (example_index, None) (js ''#   .Foo(a, b) -> float'') = (example_index, None) \<and>
   typesMatch (trim (js ''#   Types: Rotor, Blade'')) = Some (js ''Rotor, Blade'') \<and>
   parseLine ([], None) (js ''#   Types: Rotor, Blade'') = ([], None)"
proof -
  have m: "methodMatch (trim (js ''#   .Foo(a, b) -> float'')) =
     Some (js ''Foo'', js ''a, b'', Some (js ''float''))"
    by code_simp
  have t: "typesMatch (trim (js ''#   Types: Rotor, Blade'')) = Some (js ''Rotor, Blade'')"
    by code_simp
  have h1: "methodMatch (trim (js ''#   .Foo(a, b) -> float'')) \<noteq> None
      \<or> typesMatch (trim (js ''#   .Foo(a, b) -> float'')) \<noteq> None"
    using m by simp
  have h2: "methodMatch (trim (js ''#   Types: Rotor, Blade'')) \<noteq> None
      \<or> typesMatch (trim (js ''#   Types: Rotor, Blade'')) \<noteq> None"
    using t by simp
  show ?thesis
    using m t method_or_types_line_without_module [OF h1, of example_index]
      method_or_types_line_without_module [OF h2, of "[]"]
    by (intro conjI)
qed

subsection \<open>Description lines for a module that exists already\<close>

text \<open>
  C4. A description line that names a module of the index replaces the description of
  that entry and nothing else: its methods and types stay, the other entries stay, and so
  does the order of the index. A further description line for the same name replaces the
  description again.
\<close>

theorem description_line_existing_module:
  assumes "descMatch (trim line) = Some (n, d)" and "get ms n = Some m"
  shows "parseLine (ms, cur) line = (AList.map_entry n (\<lambda>m. m\<lparr>description := d\<rparr>) ms, Some n)
       \<and> get (fst (parseLine (ms, cur) line)) n = Some (m\<lparr>description := d\<rparr>)
       \<and> methods (m\<lparr>description := d\<rparr>) = methods m
       \<and> types (m\<lparr>description := d\<rparr>) = types m
       \<and> (\<forall>k. k \<noteq> n \<longrightarrow> get (fst (parseLine (ms, cur) line)) k = get ms k)
       \<and> map fst (fst (parseLine (ms, cur) line)) = map fst ms
       \<and> (\<forall>line2 d2. descMatch (trim line2) = Some (n, d2) \<longrightarrow>
            get (fst (parseLine (parseLine (ms, cur) line) line2)) n = Some (m\<lparr>description := d2\<rparr>))"
proof -
  have h: "has ms n" using assms(2) by (simp add: has_def get_def)
  have 1: "parseLine (ms, cur) line = (AList.map_entry n (\<lambda>m. m\<lparr>description := d\<rparr>) ms, Some n)"
    using assms(1) h by (simp add: parseLine_desc)
  have 2: "get (AList.map_entry n (\<lambda>m. m\<lparr>description := d\<rparr>) ms) n = Some (m\<lparr>description := d\<rparr>)"
    using assms(2) by (simp add: get_def map_of_map_entry)
  have 3: "\<forall>k. k \<noteq> n \<longrightarrow> get (AList.map_entry n (\<lambda>m. m\<lparr>description := d\<rparr>) ms) k = get ms k"
    by (simp add: get_def map_of_map_entry)
  have 4: "get (fst (parseLine (AList.map_entry n (\<lambda>m. m\<lparr>description := d\<rparr>) ms, Some n) line2)) n
             = Some (m\<lparr>description := d2\<rparr>)"
    if "descMatch (trim line2) = Some (n, d2)" for line2 d2
    using that assms(2) h
    by (simp add: parseLine_desc has_map_entry get_def map_of_map_entry)
  show ?thesis using 1 2 3 4 by (simp add: keys_map_entry)
qed

theorem description_line_existing_module_witness:
  "descMatch (trim (js ''# vehicle - A faster car'')) = Some (js ''vehicle'', js ''A faster car'') \<and>
   get example_index (js ''vehicle'') = Some example_vehicle \<and>
   parseLine (example_index, None) (js ''# vehicle - A faster car'') =
     ([(js ''engine'', new_module (js ''engine'') []),
       (js ''vehicle'', example_vehicle\<lparr>description := js ''A faster car''\<rparr>)],
      Some (js ''vehicle'')) \<and>
   get (fst (parseLine (example_index, None) (js ''# vehicle - A faster car''))) (js ''engine'') =
     Some (new_module (js ''engine'') []) \<and>
   get (fst (parseLine (parseLine (example_index, None) (js ''# vehicle - A faster car''))
          (js ''# vehicle - The fastest car''))) (js ''vehicle'') =
     Some (example_vehicle\<lparr>description := js ''The fastest car''\<rparr>)"
proof -
  have h1: "descMatch (trim (js ''# vehicle - A faster car'')) = Some (js ''vehicle'', js ''A faster car'')"
    by code_simp
  have h2: "get example_index (js ''vehicle'') = Some example_vehicle" by code_simp
  have h3: "descMatch (trim (js ''# vehicle - The fastest car'')) = Some (js ''vehicle'', js ''The fastest car'')"
    by code_simp
  have ne: "js ''engine'' \<noteq> js ''vehicle''" by code_simp
  have ge: "get example_index (js ''engine'') = Some (new_module (js ''engine'') [])" by code_simp
  note T = description_line_existing_module [OF h1 h2, of None]
  have A: "parseLine (example_index, None) (js ''# vehicle - A faster car'') =
     ([(js ''engine'', new_module (js ''engine'') []),
       (js ''vehicle'', example_vehicle\<lparr>description := js ''A faster car''\<rparr>)],
      Some (js ''vehicle''))"
    using T [THEN conjunct1] ne by (simp add: example_index_def)
  have B: "get (fst (parseLine (example_index, None) (js ''# vehicle - A faster car''))) (js ''engine'') =
     Some (new_module (js ''engine'') [])"
    using T ne ge by metis
  have C: "get (fst (parseLine (parseLine (example_index, None) (js ''# vehicle - A faster car''))
          (js ''# vehicle - The fastest car''))) (js ''vehicle'') =
     Some (example_vehicle\<lparr>description := js ''The fastest car''\<rparr>)"
    using T h3 by blast
  show ?thesis using h1 h2 A B C by (intro conjI)
qed

subsection \<open>Types lines\<close>

text \<open>
  C5. A types line read while a module is current appends names to the types of that
  module: the pieces of the text behind the colon, cut at the commas that have white
  space behind them, each piece trimmed. A comma with no white space behind it does not
  separate two names. In the reference file below the types line is
  \<open>Types: HitInfo,PhysicsChassis, Wheel\<close>: the parser appends two names, the first of
  them \<open>HitInfo,PhysicsChassis\<close>, where the list has three names separated by commas. The
  method lines of the same parser are cut at every comma.
\<close>

theorem types_line_comma_without_space:
  "parseText (js ''# vehicle - The car'' @ [0x0A] @ js ''#   Types: HitInfo,PhysicsChassis, Wheel'') =
     [(js ''vehicle'',
       \<lparr>ModuleInfo.name = js ''vehicle'', description = js ''The car'', methods = [],
        types = [js ''HitInfo,PhysicsChassis'', js ''Wheel'']\<rparr>)]"
  by code_simp

section \<open>The lookups\<close>

subsection \<open>Signature help\<close>

text \<open>The provider computes what the specification describes, for the text before the
  cursor.\<close>

lemma provideSignatureHelp_eq_spec:
  "provideSignatureHelp ms lineText character = signature_help_spec ms (take character lineText)"
proof -
  let ?tb = "take character lineText"
  show ?thesis
  proof (cases "unmatched_open ?tb")
    case None
    then show ?thesis
      by (simp add: provideSignatureHelp_def signature_help_spec_def scan_back_unmatched_open)
  next
    case (Some p)
    then show ?thesis
      by (simp add: provideSignatureHelp_def signature_help_spec_def scan_back_unmatched_open
          builtinMatch_eq callMatch_eq resolve_builtin_def resolve_method_def Let_def
          split: option.splits)
  qed
qed

text \<open>
  C6. For every line and cursor column, with the text before the cursor: the parenthesis
  that the provider locates is the innermost one that is still open, the last \<open>(\<close> with as
  many \<open>)\<close> as \<open>(\<close> behind it. When there is none the result is nothing. Otherwise the
  callee before that parenthesis is looked up as a built-in function first and as
  \<open>module.method\<close> against the index second; when it is one of them there is a result, its
  active parameter is exactly the number of commas at depth zero behind the parenthesis,
  and its one signature is that of the built-in function or of the method; when it is
  neither the result is nothing. Every result that the provider gives has the number of
  commas at depth zero behind the open parenthesis as its active parameter.
\<close>

theorem signature_help_refines:
  "provideSignatureHelp ms lineText character = signature_help_spec ms (take character lineText)
   \<and> (unmatched_open (take character lineText) = None \<longrightarrow>
        provideSignatureHelp ms lineText character = None)
   \<and> (\<forall>p. unmatched_open (take character lineText) = Some p \<longrightarrow>
        (\<forall>b. resolve_builtin (trimEnd (take p (take character lineText))) = Some b \<longrightarrow>
           (\<exists>h. provideSignatureHelp ms lineText character = Some h
              \<and> activeParameter h = active_commas (take character lineText) p
              \<and> activeSignature h = 0
              \<and> map SignatureInformation.label (signatures h) = [signature b]
              \<and> map SignatureInformation.documentation (signatures h) = [BuiltinInfo.detail b]))
      \<and> (\<forall>moduleName method.
             resolve_builtin (trimEnd (take p (take character lineText))) = None \<and>
             resolve_method ms (trimEnd (take p (take character lineText))) = Some (moduleName, method) \<longrightarrow>
           (\<exists>h. provideSignatureHelp ms lineText character = Some h
              \<and> activeParameter h = active_commas (take character lineText) p
              \<and> activeSignature h = 0
              \<and> map SignatureInformation.label (signatures h) =
                    [moduleName @ js ''.'' @ MethodInfo.name method @ js ''('' @
                     join (js '', '') (params method) @ js '')'' @
                     (if returnType method = js ''void'' then []
                      else js '' -> '' @ returnType method)]
              \<and> map parameters (signatures h) = [params method]))
      \<and> (resolve_builtin (trimEnd (take p (take character lineText))) = None \<and>
           resolve_method ms (trimEnd (take p (take character lineText))) = None \<longrightarrow>
           provideSignatureHelp ms lineText character = None))
   \<and> (\<forall>h. provideSignatureHelp ms lineText character = Some h \<longrightarrow>
        (\<exists>p. unmatched_open (take character lineText) = Some p
           \<and> activeParameter h = active_commas (take character lineText) p))"
proof -
  let ?tb = "take character lineText"
  have eq: "provideSignatureHelp ms lineText character = signature_help_spec ms ?tb"
    by (rule provideSignatureHelp_eq_spec)
  have none: "signature_help_spec ms ?tb = None" if "unmatched_open ?tb = None"
    using that by (simp add: signature_help_spec_def)
  have bi: "signature_help_spec ms ?tb = Some (builtin_signature_help b (active_commas ?tb p))"
    if "unmatched_open ?tb = Some p" "resolve_builtin (trimEnd (take p ?tb)) = Some b" for p b
    using that by (simp add: signature_help_spec_def Let_def)
  have me: "signature_help_spec ms ?tb =
      Some (method_signature_help moduleName m (active_commas ?tb p))"
    if "unmatched_open ?tb = Some p" "resolve_builtin (trimEnd (take p ?tb)) = None"
       "resolve_method ms (trimEnd (take p ?tb)) = Some (moduleName, m)" for p moduleName m
    using that by (simp add: signature_help_spec_def Let_def)
  have no: "signature_help_spec ms ?tb = None"
    if "unmatched_open ?tb = Some p" "resolve_builtin (trimEnd (take p ?tb)) = None"
       "resolve_method ms (trimEnd (take p ?tb)) = None" for p
    using that by (simp add: signature_help_spec_def Let_def)
  have act: "\<exists>p. unmatched_open ?tb = Some p \<and> activeParameter h = active_commas ?tb p"
    if "signature_help_spec ms ?tb = Some h" for h
    using that
    by (auto simp: signature_help_spec_def Let_def builtin_signature_help_def
        method_signature_help_def split: option.splits)
  have c3: "\<exists>h. provideSignatureHelp ms lineText character = Some h
              \<and> activeParameter h = active_commas ?tb p
              \<and> activeSignature h = 0
              \<and> map SignatureInformation.label (signatures h) = [signature b]
              \<and> map SignatureInformation.documentation (signatures h) = [BuiltinInfo.detail b]"
    if "unmatched_open ?tb = Some p" "resolve_builtin (trimEnd (take p ?tb)) = Some b" for p b
    unfolding eq bi [OF that] by (simp add: builtin_signature_help_def)
  have c4: "\<exists>h. provideSignatureHelp ms lineText character = Some h
              \<and> activeParameter h = active_commas ?tb p
              \<and> activeSignature h = 0
              \<and> map SignatureInformation.label (signatures h) =
                    [moduleName @ js ''.'' @ MethodInfo.name m @ js ''('' @
                     join (js '', '') (params m) @ js '')'' @
                     (if returnType m = js ''void'' then []
                      else js '' -> '' @ returnType m)]
              \<and> map parameters (signatures h) = [params m]"
    if "unmatched_open ?tb = Some p" "resolve_builtin (trimEnd (take p ?tb)) = None"
       "resolve_method ms (trimEnd (take p ?tb)) = Some (moduleName, m)" for p moduleName m
    unfolding eq me [OF that]
    by (simp add: method_signature_help_def method_signature_def Let_def)
  show ?thesis
    using eq none c3 c4 no act by (simp only: eq) blast
qed

theorem signature_help_refines_witness:
  "unmatched_open (take 31 (js ''vehicle.SetSpeed(f(1,2), g(3), '')) = Some 16 \<and>
   active_commas (take 31 (js ''vehicle.SetSpeed(f(1,2), g(3), '')) 16 = 2 \<and>
   map_option activeParameter
     (provideSignatureHelp example_index (js ''vehicle.SetSpeed(f(1,2), g(3), '') 31) = Some 2 \<and>
   provideSignatureHelp example_index (js ''vehicle.SetSpeed(f(1,2), g(3), '') 31 =
     Some \<lparr>signatures =
             [\<lparr>SignatureInformation.label = js ''vehicle.SetSpeed(v, mode) -> float'',
               SignatureInformation.documentation = js ''.SetSpeed(v, mode) -> float'',
               parameters = [js ''v'', js ''mode'']\<rparr>],
           activeSignature = 0, activeParameter = 2\<rparr> \<and>
   unmatched_open (take 16 (js ''x = len(abs(y), '')) = Some 7 \<and>
   active_commas (take 16 (js ''x = len(abs(y), '')) 7 = 1 \<and>
   map_option activeParameter
     (provideSignatureHelp example_index (js ''x = len(abs(y), '') 16) = Some 1 \<and>
   unmatched_open (take 5 (js ''f(x) '')) = None \<and>
   provideSignatureHelp example_index (js ''f(x) '') 5 = None \<and>
   map_option activeParameter
     (provideSignatureHelp example_index (js ''vehicle.SetSpeed(10, '') 21) = Some 1"
proof -
  let ?l1 = "js ''vehicle.SetSpeed(f(1,2), g(3), ''"
  let ?l2 = "js ''x = len(abs(y), ''"
  let ?l3 = "js ''f(x) ''"
  have u1: "unmatched_open (take 31 ?l1) = Some 16" by code_simp
  have a1: "active_commas (take 31 ?l1) 16 = 2" by code_simp
  have b1: "resolve_builtin (trimEnd (take 16 (take 31 ?l1))) = None" by code_simp
  have m1: "resolve_method example_index (trimEnd (take 16 (take 31 ?l1))) =
      Some (js ''vehicle'', methods example_vehicle ! 1)" by code_simp
  have s1: "signature_help_spec example_index (take 31 ?l1) =
     Some \<lparr>signatures =
             [\<lparr>SignatureInformation.label = js ''vehicle.SetSpeed(v, mode) -> float'',
               SignatureInformation.documentation = js ''.SetSpeed(v, mode) -> float'',
               parameters = [js ''v'', js ''mode'']\<rparr>],
           activeSignature = 0, activeParameter = 2\<rparr>"
    by code_simp
  have u2: "unmatched_open (take 16 ?l2) = Some 7" by code_simp
  have a2: "active_commas (take 16 ?l2) 7 = 1" by code_simp
  have b2: "resolve_builtin (trimEnd (take 7 (take 16 ?l2))) = Some (BUILTINS ! 0)" by code_simp
  have u3: "unmatched_open (take 5 ?l3) = None" by code_simp
  note T1 = signature_help_refines [of example_index ?l1 31]
  note T2 = signature_help_refines [of example_index ?l2 16]
  note T3 = signature_help_refines [of example_index ?l3 5]
  from T1 u1 b1 m1 obtain h1 where
    h1: "provideSignatureHelp example_index ?l1 31 = Some h1"
        "activeParameter h1 = active_commas (take 31 ?l1) 16"
    by blast
  have p1: "map_option activeParameter (provideSignatureHelp example_index ?l1 31) = Some 2"
    using h1 a1 by simp
  have r1: "provideSignatureHelp example_index ?l1 31 =
     Some \<lparr>signatures =
             [\<lparr>SignatureInformation.label = js ''vehicle.SetSpeed(v, mode) -> float'',
               SignatureInformation.documentation = js ''.SetSpeed(v, mode) -> float'',
               parameters = [js ''v'', js ''mode'']\<rparr>],
           activeSignature = 0, activeParameter = 2\<rparr>"
    using T1 [THEN conjunct1] s1 by simp
  from T2 u2 b2 obtain h2 where
    h2: "provideSignatureHelp example_index ?l2 16 = Some h2"
        "activeParameter h2 = active_commas (take 16 ?l2) 7"
    by blast
  have p2: "map_option activeParameter (provideSignatureHelp example_index ?l2 16) = Some 1"
    using h2 a2 by simp
  have r3: "provideSignatureHelp example_index ?l3 5 = None"
    using T3 u3 by blast
  have s4: "map_option activeParameter
      (signature_help_spec example_index (take 21 (js ''vehicle.SetSpeed(10, ''))) = Some 1"
    by code_simp
  have p4: "map_option activeParameter
      (provideSignatureHelp example_index (js ''vehicle.SetSpeed(10, '') 21) = Some 1"
    using signature_help_refines [of example_index "js ''vehicle.SetSpeed(10, ''" 21, THEN conjunct1] s4
    by simp
  show ?thesis using u1 a1 p1 r1 u2 a2 p2 u3 r3 p4 by (intro conjI)
qed

subsection \<open>Member completion\<close>

text \<open>
  C7. When the text before the cursor ends in \<open>identifier.partial\<close> and the identifier is a
  module of the index, the completion items are the methods of that module, in their
  order and nothing else. The detail of each item is \<open>module.method(p1, p2)\<close>, with
  \<open> -> type\<close> behind it exactly when the return type is not \<open>void\<close>; the inserted snippet is
  \<open>Name()\<close> for a method without parameters and otherwise \<open>Name(${1:p1}, ${2:p2})\<close>, one
  numbered placeholder for each parameter from left to right.
\<close>

theorem member_completion_known_module:
  assumes "take character lineText = pre @ ident @ js ''.'' @ partial"
    and "pre = [] \<or> \<not> is_word (last pre)" and "ident \<noteq> []"
    and "list_all is_word ident" and "list_all is_word partial"
    and "get ms ident = Some mdl"
  shows "provideCompletionItems ms lineText character = map (method_item ident) (methods mdl)
       \<and> map CompletionItem.label (provideCompletionItems ms lineText character)
            = map MethodInfo.name (methods mdl)
       \<and> (\<forall>i < length (methods mdl).
            CompletionItem.detail (provideCompletionItems ms lineText character ! i) =
              Some (ident @ js ''.'' @ MethodInfo.name (methods mdl ! i) @ js ''('' @
                    join (js '', '') (params (methods mdl ! i)) @ js '')'' @
                    (if returnType (methods mdl ! i) = js ''void'' then []
                     else js '' -> '' @ returnType (methods mdl ! i)))
          \<and> insertText (provideCompletionItems ms lineText character ! i) =
              Some (if params (methods mdl ! i) = [] then MethodInfo.name (methods mdl ! i) @ js ''()''
                    else MethodInfo.name (methods mdl ! i) @ js ''('' @
                      join (js '', '')
                        (map (\<lambda>j. js ''${'' @ number_to_string (j + 1) @ js '':'' @
                                   params (methods mdl ! i) ! j @ js ''}'')
                             [0..<length (params (methods mdl ! i))]) @ js '')''))"
proof -
  have d: "dotMatch (take character lineText) = Some (ident, partial)"
    using assms(1-5) by (rule dotMatch_shape)
  have r: "provideCompletionItems ms lineText character = map (method_item ident) (methods mdl)"
    using d assms(6) by (simp add: provideCompletionItems_def)
  have l: "map CompletionItem.label (map (method_item ident) (methods mdl)) = map MethodInfo.name (methods mdl)"
    by (simp add: method_item_def comp_def)
  have s: "snippet_of m = (if params m = [] then MethodInfo.name m @ js ''()''
             else MethodInfo.name m @ js ''('' @
                      join (js '', '')
                        (map (\<lambda>j. js ''${'' @ number_to_string (j + 1) @ js '':'' @ params m ! j @ js ''}'')
                             [0..<length (params m)]) @ js '')'')" for m
    by (simp add: snippet_of_eq js_def)
  show ?thesis unfolding r l
    by (simp add: method_item_def method_signature_def Let_def s)
qed

theorem member_completion_known_module_witness:
  "map insertText (provideCompletionItems example_index (js ''x = vehicle.Se'') 14) =
     [Some (js ''Honk()''), Some (js ''SetSpeed(${1:v}, ${2:mode})'')] \<and>
   map CompletionItem.detail (provideCompletionItems example_index (js ''x = vehicle.Se'') 14) =
     [Some (js ''vehicle.Honk()''), Some (js ''vehicle.SetSpeed(v, mode) -> float'')]"
proof -
  have h1: "take 14 (js ''x = vehicle.Se'') = js ''x = '' @ js ''vehicle'' @ js ''.'' @ js ''Se''"
    by code_simp
  have h2: "js ''x = '' = [] \<or> \<not> is_word (last (js ''x = ''))" by code_simp
  have h3: "js ''vehicle'' \<noteq> []" by code_simp
  have h4: "list_all is_word (js ''vehicle'')" by code_simp
  have h5: "list_all is_word (js ''Se'')" by code_simp
  have h6: "get example_index (js ''vehicle'') = Some example_vehicle" by code_simp
  have r: "provideCompletionItems example_index (js ''x = vehicle.Se'') 14 =
      map (method_item (js ''vehicle'')) (methods example_vehicle)"
    using member_completion_known_module [OF h1 h2 h3 h4 h5 h6] by blast
  have e1: "map insertText (map (method_item (js ''vehicle'')) (methods example_vehicle)) =
     [Some (js ''Honk()''), Some (js ''SetSpeed(${1:v}, ${2:mode})'')]" by code_simp
  have e2: "map CompletionItem.detail (map (method_item (js ''vehicle'')) (methods example_vehicle)) =
     [Some (js ''vehicle.Honk()''), Some (js ''vehicle.SetSpeed(v, mode) -> float'')]" by code_simp
  show ?thesis unfolding r using e1 e2 by (rule conjI)
qed

subsection \<open>Hover\<close>

text \<open>
  C8. A word that has a dot before it is looked up as a method of the module named by
  the identifier before that dot, a word that has a dot behind it as a module, and the
  lookups as a module, a built-in function, a keyword and a constant are those of a word
  that stands alone; the comments of the source say so as well (\<open>Standalone module name
  (no dot context)\<close>). The provider leaves its two dot conditionals only on a hit, so a
  word next to a dot whose lookup there finds nothing goes on to the standalone lookups.
  In \<open>x.len\<close>, with a module \<open>x\<close> that has no method \<open>len\<close>, the word \<open>len\<close> stands behind a
  dot and is no method of \<open>x\<close>; the hover is the documentation of the built-in function
  \<open>len\<close>, where the resolution of the word as a method of \<open>x\<close> has no match.
\<close>

theorem hover_after_dot_falls_through:
  "char_at (js ''x.len'') 1 = Some (of_char CHR ''.'') \<and>
   substring (js ''x.len'') 2 5 = js ''len'' \<and>
   get [(js ''x'', new_module (js ''x'') [])] (js ''x'') = Some (new_module (js ''x'') []) \<and>
   find_first (\<lambda>m. MethodInfo.name m = js ''len'') (methods (new_module (js ''x'') [])) = None \<and>
   provideHover [(js ''x'', new_module (js ''x'') [])] (js ''x.len'') (Some (2, 5)) =
     Some \<lparr>contents = [Codeblock (js ''len(obj) -> float'') (js ''xvm''),
                        Markdown ([0x0A] @ js ''Returns the length of a list or collection'')],
           range = (2, 5)\<rparr>"
  by code_simp

section \<open>A reference file that does not exist\<close>

text \<open>
  C9. When \<open>fs.existsSync\<close> answers false for the path, \<open>parseGlobals\<close> returns the empty
  index: it neither reads the file nor raises.
\<close>

theorem parseGlobals_missing_file:
  "\<not> existsSync fs filePath \<Longrightarrow> parseGlobals fs filePath = Inr []"
  by (simp add: parseGlobals_def)

theorem parseGlobals_missing_file_witness:
  "\<not> existsSync \<lparr>existsSync = (\<lambda>p. False), readFileSync = (\<lambda>p. Inl ReadError)\<rparr>
        (js ''xvm_globals.txt'') \<and>
   parseGlobals \<lparr>existsSync = (\<lambda>p. False), readFileSync = (\<lambda>p. Inl ReadError)\<rparr>
        (js ''xvm_globals.txt'') = Inr []"
  using parseGlobals_missing_file
    [of "\<lparr>existsSync = (\<lambda>p. False), readFileSync = (\<lambda>p. Inl ReadError)\<rparr>" "js ''xvm_globals.txt''"]
  by simp

section \<open>Member access on an unknown module\<close>

text \<open>
  C10. When the text before the cursor ends in \<open>identifier.partial\<close> and the identifier is
  no module of the index, there are no completion items at all. The top-level items
  (modules, keywords, constants, built-in functions), of which there is always at least
  one, are the answer exactly when the text before the cursor does not match the member
  pattern.
\<close>

theorem member_completion_unknown_module:
  assumes "take character lineText = pre @ ident @ js ''.'' @ partial"
    and "pre = [] \<or> \<not> is_word (last pre)" and "ident \<noteq> []"
    and "list_all is_word ident" and "list_all is_word partial"
    and "get ms ident = None"
  shows "provideCompletionItems ms lineText character = []
       \<and> top_level_items ms \<noteq> []
       \<and> (\<forall>line col. provideCompletionItems ms line col = top_level_items ms
                       \<longleftrightarrow> dotMatch (take col line) = None)"
proof -
  have d: "dotMatch (take character lineText) = Some (ident, partial)"
    using assms(1-5) by (rule dotMatch_shape)
  have 1: "provideCompletionItems ms lineText character = []"
    using d assms(6) by (simp add: provideCompletionItems_def)
  have 2: "top_level_items ms \<noteq> []"
    by (simp add: top_level_items_def KEYWORDS_def)
  have 3: "provideCompletionItems ms line col = top_level_items ms
             \<longleftrightarrow> dotMatch (take col line) = None" for line col
  proof (cases "dotMatch (take col line)")
    case None
    then show ?thesis by (simp add: provideCompletionItems_def)
  next
    case (Some ab)
    obtain a b where "ab = (a, b)" by (cases ab)
    with Some show ?thesis
      using 2 top_level_items_no_methods [of ms a] top_level_items_no_methods [of ms a, THEN not_sym]
      by (auto simp: provideCompletionItems_def split: option.splits)
  qed
  show ?thesis using 1 2 3 by blast
qed

theorem member_completion_unknown_module_witness:
  "get example_index (js ''wheel'') = None \<and>
   provideCompletionItems example_index (js ''x = wheel.Sp'') 12 = [] \<and>
   dotMatch (take 4 (js ''x = wheel.Sp'')) = None \<and>
   provideCompletionItems example_index (js ''x = wheel.Sp'') 4 = top_level_items example_index"
proof -
  have h1: "take 12 (js ''x = wheel.Sp'') = js ''x = '' @ js ''wheel'' @ js ''.'' @ js ''Sp''"
    by code_simp
  have h2: "js ''x = '' = [] \<or> \<not> is_word (last (js ''x = ''))" by code_simp
  have h3: "js ''wheel'' \<noteq> []" by code_simp
  have h4: "list_all is_word (js ''wheel'')" by code_simp
  have h5: "list_all is_word (js ''Sp'')" by code_simp
  have h6: "get example_index (js ''wheel'') = None" by code_simp
  have h7: "dotMatch (take 4 (js ''x = wheel.Sp'')) = None" by code_simp
  note T = member_completion_unknown_module [OF h1 h2 h3 h4 h5 h6]
  have A: "provideCompletionItems example_index (js ''x = wheel.Sp'') 12 = []"
    using T by blast
  have B: "provideCompletionItems example_index (js ''x = wheel.Sp'') 4 = top_level_items example_index"
    using T h7 by blast
  show ?thesis using h6 A h7 B by (intro conjI)
qed

end
